theory Spec2Isabelle
  imports Complex_Main "HOL-Library.Word" "HOL-Library.Log_Nat"
begin

unbundle bit_operations_syntax

section \<open>PayGuard-AI icon generator: \<^verbatim>\<open>scripts/gen-icons.py\<close>\<close>

text \<open>
  The script has one function, \<^verbatim>\<open>create_png_icon(size, filename)\<close>. Its first half
  (lines 6-43) fills \<^verbatim>\<open>pixels\<close>, a list of rows, each row the bytes R,G,B,A of its
  pixels; the second half (lines 45-61) frames these rows as a PNG file. The two halves
  are embedded as \<open>rasterize\<close> and \<open>encode\<close>; \<open>create_png_icon\<close> composes them and
  returns the bytes that the source writes to \<^verbatim>\<open>filename\<close>.
\<close>

subsection \<open>Errors and bytes\<close>

type_synonym byte = "8 word"

text \<open>The exceptions that the operations used by the script can raise.\<close>

datatype py_error = OverflowError | ZeroDivisionError | ValueError | StructError

subsection \<open>Python's floats\<close>

text \<open>
  A Python float is an IEEE 754 binary64 number, and every arithmetic operation returns
  the exactly computed result rounded to the nearest representable number, ties to the
  even significand. Finite floats are modelled by the rationals they denote. \<open>rne\<close>
  rounds a rational to 53 significant bits: \<open>ilog2\<close> is the binary exponent of the
  argument and \<open>rhe\<close> rounds the scaled significand to an integer, halves to even.
  The exponent is not bounded in \<open>rne\<close>: the largest finite float is \<open>dbl_max\<close>,
  and the operations that can exceed it in the script (the conversion of an integer and
  the division of two integers) check it and raise, as Python does. Every other result
  in the script is zero or of a magnitude far inside the normal range.
\<close>

definition rhe :: "rat \<Rightarrow> int" where
  "rhe q = (let f = \<lfloor>q\<rfloor>; r = q - of_int f in
            if r < 1 / 2 then f else if 1 / 2 < r then f + 1
            else if even f then f else f + 1)"

definition ilog2 :: "rat \<Rightarrow> int" where
  "ilog2 q = (if 1 \<le> q then bitlen \<lfloor>q\<rfloor> - 1 else - bitlen (\<lceil>1 / q\<rceil> - 1))"

definition rne :: "rat \<Rightarrow> rat" where
  "rne q = (if q = 0 then 0 else
              let e = ilog2 \<bar>q\<bar> - 52 in
              sgn q * of_int (rhe (\<bar>q\<bar> / 2 powi e)) * 2 powi e)"

definition dbl_max :: rat where
  "dbl_max = (2 ^ 53 - 1) * 2 ^ 971"

text \<open>\<^verbatim>\<open>float(n)\<close> for an integer, as the mixed operation \<^verbatim>\<open>x - cx\<close> applies it.\<close>

definition float_of_int :: "int \<Rightarrow> py_error + rat" where
  "float_of_int n =
     (let r = rne (of_int n) in if \<bar>r\<bar> \<le> dbl_max then Inr r else Inl OverflowError)"

text \<open>\<^verbatim>\<open>a / b\<close> on two integers: the correctly rounded quotient.\<close>

definition int_true_div :: "int \<Rightarrow> int \<Rightarrow> py_error + rat" where
  "int_true_div a b =
     (if b = 0 then Inl ZeroDivisionError
      else let r = rne (of_int a / of_int b) in
           if \<bar>r\<bar> \<le> dbl_max then Inr r else Inl OverflowError)"

text \<open>\<^verbatim>\<open>a - b\<close>, \<^verbatim>\<open>a * b\<close> and \<^verbatim>\<open>a / b\<close> on two floats.\<close>

definition fsub :: "rat \<Rightarrow> rat \<Rightarrow> rat" where
  "fsub a b = rne (a - b)"

definition fmul :: "rat \<Rightarrow> rat \<Rightarrow> rat" where
  "fmul a b = rne (a * b)"

definition fdiv :: "rat \<Rightarrow> rat \<Rightarrow> py_error + rat" where
  "fdiv a b = (if b = 0 then Inl ZeroDivisionError else Inr (rne (a / b)))"

subsection \<open>The rasterizer (lines 6-43)\<close>

text \<open>
  A decimal literal denotes the float nearest to it. Lines 16-18; \<^verbatim>\<open>-0.85\<close> is the
  negation of the literal \<^verbatim>\<open>0.85\<close>.
\<close>

definition shield_top :: rat where "shield_top = - rne (85 / 100)"
definition shield_bottom :: rat where "shield_bottom = rne (85 / 100)"
definition shield_width_top :: rat where "shield_width_top = rne (75 / 100)"

text \<open>Lines 13 and 14: \<^verbatim>\<open>(v - c) / (width / 2)\<close>, the left operand first.\<close>

definition normalized :: "int \<Rightarrow> rat \<Rightarrow> int \<Rightarrow> py_error + rat" where
  "normalized v c width =
     (case float_of_int v of
        Inl e \<Rightarrow> Inl e
      | Inr fv \<Rightarrow>
          (case int_true_div width 2 of
             Inl e \<Rightarrow> Inl e
           | Inr half \<Rightarrow> fdiv (fsub fv c) half))"

text \<open>Line 24.\<close>

definition progress_of :: "rat \<Rightarrow> py_error + rat" where
  "progress_of ny = fdiv (fsub ny shield_top) (fsub shield_bottom shield_top)"

text \<open>Lines 25-29: the half-width \<^verbatim>\<open>max_x\<close> of the shield at this height.\<close>

definition max_x_of :: "rat \<Rightarrow> py_error + rat" where
  "max_x_of progress =
     (if progress < rne (6 / 10) then Inr shield_width_top
      else
        (case fdiv (fsub progress (rne (6 / 10))) (rne (4 / 10)) of
           Inl e \<Rightarrow> Inl e
         | Inr taper \<Rightarrow> Inr (fmul shield_width_top (fsub 1 (fmul taper (rne (85 / 100)))))))"

text \<open>Line 36, with its guard against a division by zero.\<close>

definition border_ratio_of :: "rat \<Rightarrow> rat \<Rightarrow> py_error + rat" where
  "border_ratio_of nx max_x = (if 0 < max_x then fdiv \<bar>nx\<bar> max_x else Inr 0)"

text \<open>Lines 35-42: the four integers that an opaque pixel adds to the row.\<close>

definition shade :: "rat \<Rightarrow> rat \<Rightarrow> rat \<Rightarrow> py_error + int list" where
  "shade nx max_x progress =
     (case border_ratio_of nx max_x of
        Inl e \<Rightarrow> Inl e
      | Inr border_ratio \<Rightarrow>
          (let is_border = (rne (85 / 100) < border_ratio \<or> progress < rne (5 / 100)
                            \<or> rne (95 / 100) < progress)
           in if is_border then Inr [30, 136, 229, 255] else Inr [30, 58, 95, 255]))"

text \<open>
  The body of the inner loop (lines 13-42) for column \<open>x\<close> of row \<open>y\<close>: what it
  appends to \<^verbatim>\<open>row\<close>. The two \<^verbatim>\<open>continue\<close> statements are the two early results.
\<close>

definition pixel_body :: "int \<Rightarrow> rat \<Rightarrow> rat \<Rightarrow> int \<Rightarrow> int \<Rightarrow> py_error + int list" where
  "pixel_body width cx cy y x =
     (case normalized x cx width of
        Inl e \<Rightarrow> Inl e
      | Inr nx \<Rightarrow>
          (case normalized y cy width of
             Inl e \<Rightarrow> Inl e
           | Inr ny \<Rightarrow>
               if ny < shield_top \<or> shield_bottom < ny then Inr [0, 0, 0, 0]
               else
                 (case progress_of ny of
                    Inl e \<Rightarrow> Inl e
                  | Inr progress \<Rightarrow>
                      (case max_x_of progress of
                         Inl e \<Rightarrow> Inl e
                       | Inr max_x \<Rightarrow>
                           if max_x < \<bar>nx\<bar> then Inr [0, 0, 0, 0]
                           else shade nx max_x progress))))"

text \<open>\<^verbatim>\<open>range(n)\<close>: empty when \<open>n \<le> 0\<close>.\<close>

definition range_py :: "int \<Rightarrow> int list" where
  "range_py n = map int [0..<nat n]"

text \<open>The inner loop (lines 12-42): \<^verbatim>\<open>row.extend\<close> for each column, left to right.\<close>

fun row_loop :: "(int \<Rightarrow> py_error + int list) \<Rightarrow> int list \<Rightarrow> int list \<Rightarrow> py_error + int list" where
  "row_loop body [] row = Inr row"
| "row_loop body (x # xs) row =
     (case body x of Inl e \<Rightarrow> Inl e | Inr px \<Rightarrow> row_loop body xs (row @ px))"

text \<open>\<^verbatim>\<open>bytes(row)\<close> (line 43): \<^verbatim>\<open>ValueError\<close> unless every element is in \<open>0 .. 255\<close>.\<close>

definition to_bytes :: "int list \<Rightarrow> py_error + byte list" where
  "to_bytes row =
     (if list_all (\<lambda>v. 0 \<le> v \<and> v < 256) row then Inr (map word_of_int row)
      else Inl ValueError)"

text \<open>The outer loop (lines 10-43): \<^verbatim>\<open>pixels.append\<close> for each row, top to bottom.\<close>

fun rows_loop ::
  "(int \<Rightarrow> py_error + byte list) \<Rightarrow> int list \<Rightarrow> byte list list \<Rightarrow> py_error + byte list list" where
  "rows_loop mk [] pixels = Inr pixels"
| "rows_loop mk (y # ys) pixels =
     (case mk y of Inl e \<Rightarrow> Inl e | Inr r \<Rightarrow> rows_loop mk ys (pixels @ [r]))"

definition make_row :: "int \<Rightarrow> rat \<Rightarrow> rat \<Rightarrow> int \<Rightarrow> py_error + byte list" where
  "make_row width cx cy y =
     (case row_loop (pixel_body width cx cy y) (range_py width) [] of
        Inl e \<Rightarrow> Inl e
      | Inr row \<Rightarrow> to_bytes row)"

text \<open>Lines 6-43: \<^verbatim>\<open>width = height = size\<close>; the result is \<^verbatim>\<open>pixels\<close>.\<close>

definition rasterize :: "int \<Rightarrow> py_error + byte list list" where
  "rasterize sz =
     (case int_true_div sz 2 of
        Inl e \<Rightarrow> Inl e
      | Inr cx \<Rightarrow>
          (case int_true_div sz 2 of
             Inl e \<Rightarrow> Inl e
           | Inr cy \<Rightarrow> rows_loop (make_row sz cx cy) (range_py sz) []))"

text \<open>The pixel in column \<open>x\<close> of row \<open>y\<close>: its four bytes R, G, B, A.\<close>

definition pixel_at :: "byte list list \<Rightarrow> nat \<Rightarrow> nat \<Rightarrow> byte list" where
  "pixel_at pixels x y = take 4 (drop (4 * x) (pixels ! y))"

subsection \<open>The encoder (lines 45-61)\<close>

text \<open>
  \<^verbatim>\<open>struct.pack('>I', n)\<close>: four bytes, most significant first; \<^verbatim>\<open>struct.error\<close>
  when \<open>n\<close> is not in \<open>0 .. 2^32 - 1\<close>. \<^verbatim>\<open>struct.pack('>B', n)\<close>: one byte,
  \<^verbatim>\<open>struct.error\<close> outside \<open>0 .. 255\<close>.
\<close>

definition pack_I :: "int \<Rightarrow> py_error + byte list" where
  "pack_I n =
     (if 0 \<le> n \<and> n < 2 ^ 32
      then Inr [word_of_int (n div 2 ^ 24), word_of_int (n div 2 ^ 16),
                word_of_int (n div 2 ^ 8), word_of_int n]
      else Inl StructError)"

definition pack_B :: "int \<Rightarrow> py_error + byte list" where
  "pack_B n = (if 0 \<le> n \<and> n < 256 then Inr [word_of_int n] else Inl StructError)"

text \<open>\<^verbatim>\<open>struct.pack('>IIBBBBB', a, b, c, d, e, f, g)\<close>: the fields in order.\<close>

fun pack_fields :: "(py_error + byte list) list \<Rightarrow> py_error + byte list" where
  "pack_fields [] = Inr []"
| "pack_fields (f # fs) =
     (case f of
        Inl e \<Rightarrow> Inl e
      | Inr bs \<Rightarrow> (case pack_fields fs of Inl e \<Rightarrow> Inl e | Inr rest \<Rightarrow> Inr (bs @ rest)))"

definition pack_IIBBBBB ::
  "int \<Rightarrow> int \<Rightarrow> int \<Rightarrow> int \<Rightarrow> int \<Rightarrow> int \<Rightarrow> int \<Rightarrow> py_error + byte list" where
  "pack_IIBBBBB a b c d e f g =
     pack_fields [pack_I a, pack_I b, pack_B c, pack_B d, pack_B e, pack_B f, pack_B g]"

text \<open>
  Modelled from the spec: \<^verbatim>\<open>zlib.crc32\<close> is a library function, not code of the
  repository. The spec asks for the CRC-32 of zlib and gzip: the reflected polynomial
  \<open>0xEDB88320\<close>, the register seeded with \<open>0xFFFFFFFF\<close> for each call and inverted
  at the end. The result is the unsigned 32-bit value, as Python 3 returns it.
\<close>

definition crc_shift :: "32 word \<Rightarrow> 32 word" where
  "crc_shift c = (if bit c 0 then drop_bit 1 c XOR 0xEDB88320 else drop_bit 1 c)"

definition crc_byte :: "byte \<Rightarrow> 32 word \<Rightarrow> 32 word" where
  "crc_byte b c =
     crc_shift (crc_shift (crc_shift (crc_shift
       (crc_shift (crc_shift (crc_shift (crc_shift (c XOR ucast b))))))))"

definition crc32 :: "byte list \<Rightarrow> int" where
  "crc32 bs = uint (fold crc_byte bs 0xFFFFFFFF XOR 0xFFFFFFFF)"

text \<open>The chunk type tags and the file signature, as the byte literals of the source.\<close>

definition tag_IHDR :: "byte list" where "tag_IHDR = [0x49, 0x48, 0x44, 0x52]"
definition tag_IDAT :: "byte list" where "tag_IDAT = [0x49, 0x44, 0x41, 0x54]"
definition tag_IEND :: "byte list" where "tag_IEND = [0x49, 0x45, 0x4E, 0x44]"

definition sig :: "byte list" where
  "sig = [0x89, 0x50, 0x4E, 0x47, 0x0D, 0x0A, 0x1A, 0x0A]"

text \<open>
  \<^verbatim>\<open>make_chunk\<close> (lines 45-47). Python evaluates the left \<^verbatim>\<open>struct.pack\<close> first.
  \<^verbatim>\<open>& 0xFFFFFFFF\<close> is the bitwise and of Python's integers.
\<close>

definition make_chunk :: "byte list \<Rightarrow> byte list \<Rightarrow> py_error + byte list" where
  "make_chunk chunk_type data =
     (let chunk = chunk_type @ data in
      case pack_I (int (length data)) of
        Inl e \<Rightarrow> Inl e
      | Inr len \<Rightarrow>
          (case pack_I (crc32 chunk AND 0xFFFFFFFF) of
             Inl e \<Rightarrow> Inl e
           | Inr crc \<Rightarrow> Inr (len @ chunk @ crc)))"

text \<open>
  Lines 52-54: \<^verbatim>\<open>raw = b''\<close>, then \<^verbatim>\<open>raw += b'\x00' + row_pixels\<close> for each row.
\<close>

definition scanlines :: "byte list list \<Rightarrow> byte list" where
  "scanlines pixels = fold (\<lambda>row_pixels raw. raw @ (0 # row_pixels)) pixels []"

text \<open>
  Lines 49-61. \<^verbatim>\<open>zlib.compress(raw, 9)\<close> is a library call: the compressor is the
  parameter \<open>compress\<close>. The result is the value of \<^verbatim>\<open>png\<close> at line 63.
\<close>

definition encode ::
  "(byte list \<Rightarrow> byte list) \<Rightarrow> int \<Rightarrow> byte list list \<Rightarrow> py_error + byte list" where
  "encode compress sz pixels =
     (case pack_IIBBBBB sz sz 8 6 0 0 0 of
        Inl e \<Rightarrow> Inl e
      | Inr ihdr \<Rightarrow>
          (let raw = scanlines pixels;
               compressed = compress raw in
           case make_chunk tag_IHDR ihdr of
             Inl e \<Rightarrow> Inl e
           | Inr c1 \<Rightarrow>
               (case make_chunk tag_IDAT compressed of
                  Inl e \<Rightarrow> Inl e
                | Inr c2 \<Rightarrow>
                    (case make_chunk tag_IEND [] of
                       Inl e \<Rightarrow> Inl e
                     | Inr c3 \<Rightarrow> Inr (sig @ c1 @ c2 @ c3)))))"

text \<open>
  An image of the given size, as the encoder expects it from the rasterizer: \<open>size\<close>
  rows of \<open>size\<close> pixels, four bytes each.
\<close>

definition image_ok :: "int \<Rightarrow> byte list list \<Rightarrow> bool" where
  "image_ok sz pixels \<longleftrightarrow>
     int (length pixels) = sz \<and> list_all (\<lambda>row. int (length row) = 4 * sz) pixels"

text \<open>The scanline buffer as the spec words it: per row, the filter byte 0, then the row.\<close>

definition spec_scanlines :: "byte list list \<Rightarrow> byte list" where
  "spec_scanlines pixels = concat (map (\<lambda>row. 0 # row) pixels)"

text \<open>
  The largest integer that \<open>float_of_int\<close> maps to \<open>dbl_max\<close> without rounding,
  \<open>2^1024 - 2^971\<close>.
\<close>

definition max_int :: int where "max_int = (2 ^ 53 - 1) * 2 ^ 971"

text \<open>The three lists that the loop body can append to a row.\<close>

definition colours :: "int list set" where
  "colours = {[0, 0, 0, 0], [30, 58, 95, 255], [30, 136, 229, 255]}"

text \<open>
  What the loop body appends for column \<open>x\<close> of row \<open>y\<close> when it does not raise,
  with \<^verbatim>\<open>cx\<close> and \<^verbatim>\<open>cy\<close> as line 8 computes them, and the bytes of row \<open>y\<close>.
\<close>

definition pixel_value :: "int \<Rightarrow> int \<Rightarrow> int \<Rightarrow> int list" where
  "pixel_value sz y x =
     (case pixel_body sz (rne (of_int sz / 2)) (rne (of_int sz / 2)) y x of
        Inl e \<Rightarrow> [] | Inr px \<Rightarrow> px)"

definition row_value :: "int \<Rightarrow> int \<Rightarrow> byte list" where
  "row_value sz y = map word_of_int (concat (map (pixel_value sz y) (range_py sz)))"

text \<open>
  The pixel of column \<open>x\<close> and row \<open>y\<close> as the spec gives it: the normalized
  coordinates, the two thresholds, the progress, the half-width and the border test, every
  operation and literal in binary64.
\<close>

definition spec_coord :: "int \<Rightarrow> int \<Rightarrow> rat" where
  "spec_coord sz v = rne (rne (rne (of_int v) - rne (of_int sz / 2)) / rne (of_int sz / 2))"

definition spec_max_x :: "rat \<Rightarrow> rat" where
  "spec_max_x progress =
     (if progress < rne (6 / 10) then rne (75 / 100)
      else rne (rne (75 / 100)
                * rne (1 - rne (rne (85 / 100) * rne (rne (progress - rne (6 / 10)) / rne (4 / 10))))))"

definition spec_pixel :: "int \<Rightarrow> int \<Rightarrow> int \<Rightarrow> byte list" where
  "spec_pixel sz x y =
     (let nx = spec_coord sz x; ny = spec_coord sz y in
      if ny < - rne (85 / 100) \<or> rne (85 / 100) < ny then [0, 0, 0, 0]
      else
        let progress = rne (rne (ny + rne (85 / 100)) / rne (17 / 10));
            max_x = spec_max_x progress in
        if max_x < \<bar>nx\<bar> then [0, 0, 0, 0]
        else
          let ratio = (if max_x \<le> 0 then 0 else rne (\<bar>nx\<bar> / max_x)) in
          if rne (85 / 100) < ratio \<or> progress < rne (5 / 100) \<or> rne (95 / 100) < progress
          then [30, 136, 229, 255] else [30, 58, 95, 255])"

text \<open>
  The same pixel with the formulas of the spec read as equations between exact numbers:
  no operation is rounded and a decimal literal is the fraction it writes.
\<close>

definition claim_pixel :: "int \<Rightarrow> int \<Rightarrow> int \<Rightarrow> byte list" where
  "claim_pixel sz x y =
     (let nx = (of_int x - of_int sz / 2) / (of_int sz / 2) :: rat;
          ny = (of_int y - of_int sz / 2) / (of_int sz / 2) :: rat in
      if ny < - (85 / 100) \<or> 85 / 100 < ny then [0, 0, 0, 0]
      else
        let progress = (ny + 85 / 100) / (17 / 10);
            max_x = (if progress < 6 / 10 then 75 / 100
                     else 75 / 100 * (1 - 85 / 100 * (progress - 6 / 10) / (4 / 10))) in
        if max_x < \<bar>nx\<bar> then [0, 0, 0, 0]
        else
          let ratio = (if max_x \<le> 0 then 0 else \<bar>nx\<bar> / max_x) in
          if 85 / 100 < ratio \<or> progress < 5 / 100 \<or> 95 / 100 < progress
          then [30, 136, 229, 255] else [30, 58, 95, 255])"

text \<open>
  The file layout as the spec words it. A chunk is the big-endian 4-byte length of its
  data, the 4-byte ASCII type tag, the data and the big-endian 4-byte CRC-32 of tag and
  data; the IHDR data are width and height as 4-byte big-endian numbers and the bytes
  8, 6, 0, 0, 0; the file is the 8-byte signature and the chunks IHDR, IDAT, IEND.
\<close>

definition ascii :: "string \<Rightarrow> byte list" where
  "ascii s = map of_char s"

definition be32 :: "nat \<Rightarrow> byte list" where
  "be32 n = map (\<lambda>k. of_nat (n div 256 ^ k)) [3, 2, 1, 0]"

definition spec_chunk :: "string \<Rightarrow> byte list \<Rightarrow> byte list" where
  "spec_chunk tag data =
     be32 (length data) @ ascii tag @ data @ be32 (nat (crc32 (ascii tag @ data)))"

definition spec_ihdr :: "nat \<Rightarrow> nat \<Rightarrow> byte list" where
  "spec_ihdr width height = be32 width @ be32 height @ [8, 6, 0, 0, 0]"

definition spec_png :: "nat \<Rightarrow> byte list \<Rightarrow> byte list" where
  "spec_png sz idat =
     [0x89, 0x50, 0x4E, 0x47, 0x0D, 0x0A, 0x1A, 0x0A]
     @ spec_chunk ''IHDR'' (spec_ihdr sz sz) @ spec_chunk ''IDAT'' idat @ spec_chunk ''IEND'' []"

text \<open>
  Reading a file back, for the claims about what a decoder finds in it. \<open>parse_chunks\<close>
  splits a byte sequence into chunks (type tag and data), checking every length and CRC;
  \<open>idat_data\<close> is the data of the IDAT chunk of a file with the PNG signature;
  \<open>unscan w h\<close> cuts \<open>h\<close> scanlines of \<open>w\<close> pixels out of a decompressed buffer and
  drops the filter byte of each.
\<close>

definition be_nat :: "byte list \<Rightarrow> nat" where
  "be_nat bs = fold (\<lambda>b acc. acc * 256 + unat b) bs 0"

function parse_chunks :: "byte list \<Rightarrow> (byte list \<times> byte list) list option" where
  "parse_chunks bs =
     (if bs = [] then Some []
      else if length bs < 12 then None
      else
        (let n = be_nat (take 4 bs);
             tag = take 4 (drop 4 bs);
             data = take n (drop 8 bs) in
         if length bs < 12 + n then None
         else if be_nat (take 4 (drop (8 + n) bs)) \<noteq> nat (crc32 (tag @ data)) then None
         else
           (case parse_chunks (drop (12 + n) bs) of
              None \<Rightarrow> None
            | Some cs \<Rightarrow> Some ((tag, data) # cs))))"
  by pat_completeness auto
termination
  by (relation "measure length") auto

declare parse_chunks.simps [simp del]

definition idat_data :: "byte list \<Rightarrow> byte list option" where
  "idat_data png =
     (if take 8 png = sig
      then (case parse_chunks (drop 8 png) of None \<Rightarrow> None | Some cs \<Rightarrow> map_of cs tag_IDAT)
      else None)"

fun unscan :: "nat \<Rightarrow> nat \<Rightarrow> byte list \<Rightarrow> byte list list" where
  "unscan w 0 raw = []"
| "unscan w (Suc h) raw = take (4 * w) (drop 1 raw) # unscan w h (drop (1 + 4 * w) raw)"

section \<open>Properties of the encoder\<close>

lemma scanlines_fold:
  "fold (\<lambda>row_pixels raw. raw @ (0 # row_pixels)) pixels acc
     = acc @ concat (map (\<lambda>row. 0 # row) pixels)"
  by (induction pixels arbitrary: acc) simp_all

lemma scanlines_concat: "scanlines pixels = concat (map (\<lambda>row. 0 # row) pixels)"
  by (simp add: scanlines_def scanlines_fold)

lemma length_concat_rows:
  "list_all (\<lambda>row. int (length row) = 4 * sz) pixels \<Longrightarrow>
     int (length (concat (map (\<lambda>row. 0 # row) pixels))) = int (length pixels) * (1 + 4 * sz)"
  by (induction pixels) (simp_all add: algebra_simps)

text \<open>
  C5. For an image of width = height = size > 0, the uncompressed payload that the encoder
  builds is, row after row from the top, the filter byte 0 followed by the row's
  R,G,B,A bytes, and it is height * (1 + width * 4) bytes long.
\<close>

theorem scanlines_layout:
  assumes "0 < sz" and "image_ok sz pixels"
  shows "scanlines pixels = spec_scanlines pixels
         \<and> int (length (scanlines pixels)) = sz * (1 + sz * 4)"
  using assms length_concat_rows [of sz pixels]
  by (simp add: scanlines_concat spec_scanlines_def image_ok_def mult.commute)

theorem scanlines_layout_witness:
  "(0::int) < 1 \<and> image_ok 1 [[30, 58, 95, 255]]
   \<and> scanlines [[30, 58, 95, 255]] = [0, 30, 58, 95, 255]
   \<and> int (length (scanlines [[30, 58, 95, 255]])) = 1 * (1 + 1 * 4)"
  using scanlines_layout [of 1 "[[30, 58, 95, 255]]"]
  by (simp add: image_ok_def spec_scanlines_def)

section \<open>Rounding to the nearest float\<close>

lemma ilog2_lower:
  assumes "0 < q"
  shows "2 powi ilog2 q \<le> q"
proof (cases "1 \<le> q")
  case True
  define n where "n = \<lfloor>q\<rfloor>"
  have n: "0 < n" using True by (simp add: n_def)
  have b: "1 \<le> bitlen n" using n by (simp add: bitlen_alt_def)
  have "(2::int) ^ nat (bitlen n - 1) \<le> n" using bitlen_bounds [OF n] by simp
  then have "(of_int ((2::int) ^ nat (bitlen n - 1)) :: rat) \<le> of_int n"
    by (simp only: of_int_le_iff)
  also have "\<dots> \<le> q" by (simp add: n_def)
  finally show ?thesis using True b by (simp add: ilog2_def n_def power_int_def)
next
  case False
  define k where "k = \<lceil>1 / q\<rceil> - 1"
  have r: "1 < 1 / q" using False assms by simp
  then have "1 < \<lceil>1 / q\<rceil>" by (simp add: less_ceiling_iff)
  then have k: "0 < k" by (simp add: k_def)
  have "1 / q \<le> of_int (k + 1)" by (simp add: k_def)
  also have "k + 1 \<le> 2 ^ nat (bitlen k)" using bitlen_bounds [OF k] by simp
  finally have "1 / q \<le> 2 ^ nat (bitlen k)" by simp
  then have "1 / 2 ^ nat (bitlen k) \<le> q"
    using assms by (simp add: field_simps)
  moreover have "1 \<le> bitlen k" using k by (simp add: bitlen_alt_def)
  ultimately show ?thesis using False
    by (simp add: ilog2_def k_def power_int_def inverse_eq_divide power_one_over [symmetric] del: power_one_over)
qed

lemma ilog2_upper:
  assumes "0 < q"
  shows "q < 2 powi (ilog2 q + 1)"
proof (cases "1 \<le> q")
  case True
  define n where "n = \<lfloor>q\<rfloor>"
  have n: "0 < n" using True by (simp add: n_def)
  have b: "1 \<le> bitlen n" using n by (simp add: bitlen_alt_def)
  have "n + 1 \<le> 2 ^ nat (bitlen n)" using bitlen_bounds [OF n] by simp
  then have "(of_int (n + 1) :: rat) \<le> of_int (2 ^ nat (bitlen n))"
    by (simp only: of_int_le_iff)
  moreover have "q < of_int (n + 1)" by (simp add: n_def) linarith
  ultimately have "q < 2 ^ nat (bitlen n)" by simp
  then show ?thesis using True b by (simp add: ilog2_def n_def power_int_def)
next
  case False
  define k where "k = \<lceil>1 / q\<rceil> - 1"
  have r: "1 < 1 / q" using False assms by simp
  then have "1 < \<lceil>1 / q\<rceil>" by (simp add: less_ceiling_iff)
  then have k: "0 < k" by (simp add: k_def)
  have b: "1 \<le> bitlen k" using k by (simp add: bitlen_alt_def)
  have "(of_int ((2::int) ^ nat (bitlen k - 1)) :: rat) \<le> of_int k"
    using bitlen_bounds [OF k] by (simp only: of_int_le_iff)
  also have "of_int k < 1 / q" by (simp add: k_def) linarith
  finally have "2 ^ nat (bitlen k - 1) < 1 / q" by simp
  then have "q < 1 / 2 ^ nat (bitlen k - 1)"
    using assms by (simp add: field_simps)
  moreover have "(2::rat) powi (- bitlen k + 1) = 1 / 2 ^ nat (bitlen k - 1)"
    using b by (simp add: power_int_def inverse_eq_divide power_one_over [symmetric] del: power_one_over)
  ultimately show ?thesis using False
    by (simp add: ilog2_def k_def)
qed

lemma powi_strict_mono: "a < b \<Longrightarrow> (2::rat) powi a < 2 powi b"
  by (rule power_int_strict_increasing) simp_all

lemma powi_mono: "a \<le> b \<Longrightarrow> (2::rat) powi a \<le> 2 powi b"
  by (rule power_int_increasing) simp_all

lemma powi_less_D: "(2::rat) powi a < 2 powi b \<Longrightarrow> a < b"
  using powi_mono [of b a] by (cases "a < b") auto

lemma ilog2_unique:
  assumes "0 < q" and "2 powi e \<le> q" and "q < 2 powi (e + 1)"
  shows "ilog2 q = e"
proof (rule antisym)
  have "(2::rat) powi ilog2 q < 2 powi (e + 1)"
    using ilog2_lower [OF assms(1)] assms(3) by simp
  then have "ilog2 q < e + 1" by (rule powi_less_D)
  then show "ilog2 q \<le> e" by simp
  have "(2::rat) powi e < 2 powi (ilog2 q + 1)"
    using ilog2_upper [OF assms(1)] assms(2) by simp
  then have "e < ilog2 q + 1" by (rule powi_less_D)
  then show "e \<le> ilog2 q" by simp
qed

lemma ilog2_mono:
  assumes "0 < p" and "p \<le> q"
  shows "ilog2 p \<le> ilog2 q"
proof -
  have "(2::rat) powi ilog2 p < 2 powi (ilog2 q + 1)"
    using ilog2_lower [OF assms(1)] ilog2_upper [of q] assms by simp
  then have "ilog2 p < ilog2 q + 1" by (rule powi_less_D)
  then show ?thesis by simp
qed

lemma rhe_int: "rhe (of_int n) = n"
  by (simp add: rhe_def)

lemma rhe_bounds: "of_int (rhe q) \<le> q + 1 / 2" "q - 1 / 2 \<le> of_int (rhe q)"
  unfolding rhe_def Let_def by (simp_all; linarith)+

lemma rhe_floor_cases: "rhe q = \<lfloor>q\<rfloor> \<or> rhe q = \<lfloor>q\<rfloor> + 1"
  by (simp add: rhe_def Let_def)

lemma rhe_mono:
  assumes "p \<le> q"
  shows "rhe p \<le> rhe q"
proof (cases "\<lfloor>p\<rfloor> = \<lfloor>q\<rfloor>")
  case True
  then show ?thesis using assms unfolding rhe_def Let_def by auto
next
  case False
  then have lt: "\<lfloor>p\<rfloor> + 1 \<le> \<lfloor>q\<rfloor>" using floor_mono [OF assms] by simp
  show ?thesis
  proof (cases "\<lfloor>p\<rfloor> + 1 = \<lfloor>q\<rfloor>")
    case False
    then show ?thesis using lt rhe_floor_cases [of p] rhe_floor_cases [of q] by linarith
  next
    case True
    show ?thesis
    proof (cases "rhe p = \<lfloor>p\<rfloor>")
      case True
      then show ?thesis using lt rhe_floor_cases [of q] by linarith
    next
      case np: False
      then have "rhe p = \<lfloor>q\<rfloor>" using rhe_floor_cases [of p] True by simp
      then show ?thesis using rhe_floor_cases [of q] by linarith
    qed
  qed
qed

lemma rhe_ge_int: "of_int n \<le> q \<Longrightarrow> n \<le> rhe q"
  using rhe_mono [of "of_int n" q] by (simp add: rhe_int)

lemma rhe_le_int: "q \<le> of_int n \<Longrightarrow> rhe q \<le> n"
  using rhe_mono [of q "of_int n"] by (simp add: rhe_int)

lemma rne_0: "rne 0 = 0"
  by (simp add: rne_def)

lemma rne_neg: "rne (- q) = - rne q"
  by (simp add: rne_def Let_def)

lemma rne_pos:
  "0 < q \<Longrightarrow> rne q = of_int (rhe (q / 2 powi (ilog2 q - 52))) * 2 powi (ilog2 q - 52)"
  by (simp add: rne_def Let_def)

lemma scaled_bounds:
  assumes "0 < q"
  shows "2 ^ 52 \<le> q / 2 powi (ilog2 q - 52)" and "q / 2 powi (ilog2 q - 52) \<le> 2 ^ 53"
proof -
  have p: "(0::rat) < 2 powi (ilog2 q - 52)" by simp
  have e1: "(2::rat) ^ 52 * 2 powi (ilog2 q - 52) = 2 powi ilog2 q"
    by (simp add: power_int_diff)
  have e2: "(2::rat) ^ 53 * 2 powi (ilog2 q - 52) = 2 powi (ilog2 q + 1)"
    by (simp add: power_int_diff power_int_add)
  show "2 ^ 52 \<le> q / 2 powi (ilog2 q - 52)"
    using ilog2_lower [OF assms] e1 p by (simp add: pos_le_divide_eq)
  show "q / 2 powi (ilog2 q - 52) \<le> 2 ^ 53"
    using ilog2_upper [OF assms] e2 p by (simp add: pos_divide_le_eq)
qed

lemma rne_pos_bounds:
  assumes "0 < q"
  shows "2 powi ilog2 q \<le> rne q" and "rne q \<le> 2 powi (ilog2 q + 1)"
proof -
  let ?u = "(2::rat) powi (ilog2 q - 52)"
  have p: "(0::rat) < ?u" by simp
  have e1: "(2::rat) ^ 52 * ?u = 2 powi ilog2 q"
    by (simp add: power_int_diff)
  have e2: "(2::rat) ^ 53 * ?u = 2 powi (ilog2 q + 1)"
    by (simp add: power_int_diff power_int_add)
  have "(2::int) ^ 52 \<le> rhe (q / ?u)"
    using scaled_bounds(1) [OF assms] by (intro rhe_ge_int) simp
  then have "(of_int ((2::int) ^ 52) :: rat) \<le> of_int (rhe (q / ?u))"
    by (simp only: of_int_le_iff)
  then have "(2::rat) ^ 52 * ?u \<le> of_int (rhe (q / ?u)) * ?u"
    using p by (simp del: power_int_diff)
  then show "2 powi ilog2 q \<le> rne q"
    by (simp only: e1 rne_pos [OF assms])
  have "rhe (q / ?u) \<le> (2::int) ^ 53"
    using scaled_bounds(2) [OF assms] by (intro rhe_le_int) simp
  then have "(of_int (rhe (q / ?u)) :: rat) \<le> of_int ((2::int) ^ 53)"
    by (simp only: of_int_le_iff)
  then have "of_int (rhe (q / ?u)) * ?u \<le> (2::rat) ^ 53 * ?u"
    using p by (simp del: power_int_diff)
  then show "rne q \<le> 2 powi (ilog2 q + 1)"
    by (simp only: e2 rne_pos [OF assms])
qed

lemma rne_pos_pos: "0 < q \<Longrightarrow> 0 < rne q"
  using rne_pos_bounds(1) [of q] by (rule_tac less_le_trans [of _ "2 powi ilog2 q"]) simp_all

lemma rne_mono_pos:
  assumes "0 < p" and "p \<le> q"
  shows "rne p \<le> rne q"
proof (cases "ilog2 p = ilog2 q")
  case True
  have q: "0 < q" using assms by simp
  have "p / 2 powi (ilog2 q - 52) \<le> q / 2 powi (ilog2 q - 52)"
    using assms(2) by (simp add: divide_right_mono)
  then have "rhe (p / 2 powi (ilog2 q - 52)) \<le> rhe (q / 2 powi (ilog2 q - 52))"
    by (rule rhe_mono)
  then have "(of_int (rhe (p / 2 powi (ilog2 q - 52))) :: rat) \<le> of_int (rhe (q / 2 powi (ilog2 q - 52)))"
    by (simp only: of_int_le_iff)
  then show ?thesis
    by (simp add: rne_pos [OF assms(1)] rne_pos [OF q] True del: power_int_diff)
next
  case False
  have q: "0 < q" using assms by simp
  have "ilog2 p + 1 \<le> ilog2 q" using False ilog2_mono [OF assms] by simp
  then have "(2::rat) powi (ilog2 p + 1) \<le> 2 powi ilog2 q" by (rule powi_mono)
  then show ?thesis
    using rne_pos_bounds(2) [OF assms(1)] rne_pos_bounds(1) [OF q] by linarith
qed

lemma rne_mono:
  assumes "p \<le> q"
  shows "rne p \<le> rne q"
proof -
  consider "0 < p" | "p \<le> 0" "0 < q" | "p < 0" "q \<le> 0" "q < 0" | "p < 0" "q = 0" | "p = 0" "q = 0"
    using assms by linarith
  then show ?thesis
  proof cases
    case 1
    then show ?thesis using assms by (rule rne_mono_pos)
  next
    case 2
    have "rne p \<le> 0"
    proof (cases "p = 0")
      case True then show ?thesis by (simp add: rne_0)
    next
      case False
      then have "0 < - p" using 2 by simp
      then have "0 < rne (- p)" by (rule rne_pos_pos)
      then show ?thesis by (simp add: rne_neg)
    qed
    moreover have "0 < rne q" using 2 by (simp add: rne_pos_pos)
    ultimately show ?thesis by linarith
  next
    case 3
    then have "rne (- q) \<le> rne (- p)" using assms by (intro rne_mono_pos) simp_all
    then show ?thesis by (simp add: rne_neg)
  next
    case 4
    then have "0 < rne (- p)" by (intro rne_pos_pos) simp
    then show ?thesis using 4 by (simp add: rne_neg rne_0)
  next
    case 5
    then show ?thesis by simp
  qed
qed


lemma ilog2_int_scaled:
  assumes "0 < m"
  shows "ilog2 (of_int m * 2 powi e) = bitlen m - 1 + e"
proof (rule ilog2_unique)
  have b: "1 \<le> bitlen m" using assms by (simp add: bitlen_alt_def)
  show "(0::rat) < of_int m * 2 powi e" using assms by simp
  have "(of_int ((2::int) ^ nat (bitlen m - 1)) :: rat) \<le> of_int m"
    using bitlen_bounds [OF assms] by (simp only: of_int_le_iff)
  then have "(2::rat) powi (bitlen m - 1) \<le> of_int m"
    using b by (simp add: power_int_def)
  then have "(2::rat) powi (bitlen m - 1) * 2 powi e \<le> of_int m * 2 powi e"
    by (simp del: power_int_diff)
  then show "(2::rat) powi (bitlen m - 1 + e) \<le> of_int m * 2 powi e"
    by (simp add: power_int_add del: power_int_diff)
  have "(of_int m :: rat) < of_int ((2::int) ^ nat (bitlen m))"
    using bitlen_bounds [OF assms] by (simp only: of_int_less_iff)
  then have "of_int m < (2::rat) powi (bitlen m)"
    using b by (simp add: power_int_def)
  then have "of_int m * 2 powi e < (2::rat) powi (bitlen m) * 2 powi e"
    by (simp del: power_int_diff)
  then show "of_int m * 2 powi e < (2::rat) powi (bitlen m - 1 + e + 1)"
    by (simp add: power_int_add)
qed

lemma rne_exact_pos:
  assumes "0 < m" and "m < 2 ^ 53"
  shows "rne (of_int m * 2 powi e) = of_int m * 2 powi e"
proof -
  let ?q = "of_int m * (2::rat) powi e"
  have q: "0 < ?q" using assms by simp
  have bl: "bitlen m \<le> 53" using assms by (simp add: bitlen_le_iff_power)
  define k where "k = nat (53 - bitlen m)"
  have il: "ilog2 ?q - 52 = e - int k"
    using bl by (simp add: ilog2_int_scaled [OF assms(1)] k_def)
  have "?q / 2 powi (e - int k) = of_int m * 2 powi (int k)"
    by (simp add: power_int_diff)
  also have "\<dots> = of_int (m * 2 ^ k)" by simp
  finally have sc: "?q / 2 powi (e - int k) = of_int (m * 2 ^ k)" .
  have "rne ?q = of_int (m * 2 ^ k) * 2 powi (e - int k)"
    by (simp only: rne_pos [OF q] il sc rhe_int)
  also have "\<dots> = ?q" by (simp add: power_int_diff)
  finally show ?thesis .
qed

lemma rne_exact:
  assumes "\<bar>m\<bar> < 2 ^ 53"
  shows "rne (of_int m * 2 powi e) = of_int m * 2 powi e"
proof -
  consider "0 < m" | "m = 0" | "m < 0" by linarith
  then show ?thesis
  proof cases
    case 1 then show ?thesis using assms by (simp add: rne_exact_pos)
  next
    case 2 then show ?thesis by (simp add: rne_0)
  next
    case 3
    then have "rne (of_int (- m) * 2 powi e) = of_int (- m) * 2 powi e"
      using assms by (intro rne_exact_pos) simp_all
    then show ?thesis using rne_neg [of "of_int m * 2 powi e"] by simp
  qed
qed

lemma rne_int: "\<bar>m\<bar> < 2 ^ 53 \<Longrightarrow> rne (of_int m) = of_int m"
  using rne_exact [of m 0] by simp

lemma rne_half_int: "\<bar>m\<bar> < 2 ^ 53 \<Longrightarrow> rne (of_int m / 2) = of_int m / 2"
  using rne_exact [of m "- 1"] by (simp add: power_int_minus)

lemma rne_pow2: "rne (2 powi e) = 2 powi e"
  using rne_exact [of 1 e] by simp




lemma rne_nonneg: "0 \<le> q \<Longrightarrow> 0 \<le> rne q"
  using rne_mono [of 0 q] by (simp add: rne_0)

lemma rne_abs: "\<bar>rne q\<bar> = rne \<bar>q\<bar>"
proof (cases "0 \<le> q")
  case True
  then show ?thesis using rne_nonneg [of q] by simp
next
  case False
  then have "0 \<le> rne (- q)" by (intro rne_nonneg) simp
  then show ?thesis using False by (simp add: rne_neg)
qed

lemma dbl_max_exact: "rne dbl_max = dbl_max"
  using rne_exact [of "2 ^ 53 - 1" 971] by (simp add: dbl_max_def)

lemma rne_le_dbl_max: "\<bar>q\<bar> \<le> dbl_max \<Longrightarrow> \<bar>rne q\<bar> \<le> dbl_max"
  using rne_mono [of "\<bar>q\<bar>" dbl_max] by (simp add: rne_abs dbl_max_exact)

lemma dbl_max_int: "dbl_max = of_int max_int"
  by (simp add: dbl_max_def max_int_def)

lemma float_of_int_ok: "\<bar>n\<bar> \<le> max_int \<Longrightarrow> float_of_int n = Inr (rne (of_int n))"
proof -
  assume a: "\<bar>n\<bar> \<le> max_int"
  have "\<bar>(of_int n :: rat)\<bar> = of_int \<bar>n\<bar>" by simp
  also have "\<dots> \<le> of_int max_int" using a by (simp only: of_int_le_iff)
  finally have "\<bar>(of_int n :: rat)\<bar> \<le> dbl_max" by (simp add: dbl_max_int)
  then show ?thesis using rne_le_dbl_max [of "of_int n"] by (simp add: float_of_int_def)
qed

lemma half_ok: "\<bar>n\<bar> \<le> max_int \<Longrightarrow> int_true_div n 2 = Inr (rne (of_int n / 2))"
proof -
  assume a: "\<bar>n\<bar> \<le> max_int"
  have "\<bar>(of_int n :: rat) / 2\<bar> \<le> \<bar>of_int n\<bar>" by simp
  also have "\<dots> = of_int \<bar>n\<bar>" by simp
  also have "\<dots> \<le> of_int max_int" using a by (simp only: of_int_le_iff)
  finally have "\<bar>(of_int n :: rat) / 2\<bar> \<le> dbl_max" by (simp add: dbl_max_int)
  then show ?thesis using rne_le_dbl_max [of "of_int n / 2"] by (simp add: int_true_div_def)
qed

section \<open>Properties of the rasterizer\<close>

lemma row_loop_ok:
  "(\<And>x. x \<in> set xs \<Longrightarrow> body x = Inr (f x)) \<Longrightarrow>
     row_loop body xs row = Inr (row @ concat (map f xs))"
  by (induction xs arbitrary: row) simp_all

lemma rows_loop_ok:
  "(\<And>y. y \<in> set ys \<Longrightarrow> mk y = Inr (g y)) \<Longrightarrow>
     rows_loop mk ys pixels = Inr (pixels @ map g ys)"
  by (induction ys arbitrary: pixels) simp_all

lemma in_range_py: "v \<in> set (range_py n) \<longleftrightarrow> 0 \<le> v \<and> v < n"
proof
  assume "v \<in> set (range_py n)"
  then obtain k where "k < nat n" "v = int k" by (auto simp: range_py_def)
  then show "0 \<le> v \<and> v < n" by simp
next
  assume a: "0 \<le> v \<and> v < n"
  then have "nat v < nat n" "v = int (nat v)" by simp_all
  then show "v \<in> set (range_py n)" unfolding range_py_def by (metis atLeast0LessThan imageI lessThan_iff set_map set_upt)
qed

lemma length_range_py: "length (range_py n) = nat n"
  by (simp add: range_py_def)

lemma nth_range_py: "i < nat n \<Longrightarrow> range_py n ! i = int i"
  by (simp add: range_py_def)

lemma take_drop_blocks:
  "(\<And>v. v \<in> set xs \<Longrightarrow> length (f v) = 4) \<Longrightarrow> i < length xs \<Longrightarrow>
     take 4 (drop (4 * i) (concat (map f xs))) = f (xs ! i)"
proof (induction xs arbitrary: i)
  case Nil
  then show ?case by simp
next
  case (Cons a xs)
  show ?case
  proof (cases i)
    case 0
    then show ?thesis using Cons.prems(1) [of a] by simp
  next
    case (Suc j)
    then show ?thesis using Cons.prems Cons.IH [of j] by simp
  qed
qed

lemma length_blocks:
  "(\<And>v. v \<in> set xs \<Longrightarrow> length (f v) = 4) \<Longrightarrow> length (concat (map f xs)) = 4 * length xs"
  by (induction xs) simp_all

lemma lit_pos: "0 < rne (85 / 100)" "0 < rne (4 / 10)"
  by (simp_all add: rne_pos_pos)

lemma progress_of_ok: "progress_of ny = Inr (rne (fsub ny shield_top / fsub shield_bottom shield_top))"
proof -
  have "0 < rne (85 / 100) + rne (85 / 100)" using lit_pos(1) by simp
  then have "0 < rne (rne (85 / 100) + rne (85 / 100))" by (rule rne_pos_pos)
  then show ?thesis
    by (simp add: progress_of_def fdiv_def fsub_def shield_top_def shield_bottom_def)
qed

lemma max_x_of_ok: "\<exists>m. max_x_of progress = Inr m"
  using lit_pos(2) by (simp add: max_x_of_def fdiv_def)

lemma shade_cases:
  "shade nx max_x progress = Inr [30, 136, 229, 255] \<or> shade nx max_x progress = Inr [30, 58, 95, 255]"
  by (simp add: shade_def border_ratio_of_def fdiv_def Let_def)

lemma normalized_ok:
  assumes "0 < sz" "sz \<le> max_int" "0 \<le> v" "v < sz"
  shows "normalized v c sz = Inr (rne (fsub (rne (of_int v)) c / rne (of_int sz / 2)))"
proof -
  have "0 < rne (of_int sz / 2 :: rat)" using assms(1) by (intro rne_pos_pos) simp
  then show ?thesis using assms
    by (simp add: normalized_def float_of_int_ok half_ok fdiv_def)
qed

lemma pixel_body_unfold:
  assumes "0 < sz" "sz \<le> max_int" "0 \<le> x" "x < sz" "0 \<le> y" "y < sz"
    and nx: "nx = rne (fsub (rne (of_int x)) cx / rne (of_int sz / 2))"
    and ny: "ny = rne (fsub (rne (of_int y)) cy / rne (of_int sz / 2))"
    and pr: "progress = rne (fsub ny shield_top / fsub shield_bottom shield_top)"
    and m: "max_x_of progress = Inr m"
  shows "pixel_body sz cx cy y x =
          (if ny < shield_top \<or> shield_bottom < ny then Inr [0, 0, 0, 0]
           else if m < \<bar>nx\<bar> then Inr [0, 0, 0, 0] else shade nx m progress)"
proof -
  have 1: "normalized x cx sz = Inr nx"
    unfolding nx by (rule normalized_ok [OF assms(1,2,3,4)])
  have 2: "normalized y cy sz = Inr ny"
    unfolding ny by (rule normalized_ok [OF assms(1,2,5,6)])
  have 3: "progress_of ny = Inr progress"
    unfolding pr by (rule progress_of_ok)
  show ?thesis
    by (simp only: pixel_body_def 1 2 3 m sum.case)
qed

lemma pixel_body_ok:
  assumes "0 < sz" "sz \<le> max_int" "0 \<le> x" "x < sz" "0 \<le> y" "y < sz"
  shows "\<exists>px. pixel_body sz cx cy y x = Inr px \<and> px \<in> colours"
proof -
  define nx where "nx = rne (fsub (rne (of_int x)) cx / rne (of_int sz / 2))"
  define ny where "ny = rne (fsub (rne (of_int y)) cy / rne (of_int sz / 2))"
  define progress where "progress = rne (fsub ny shield_top / fsub shield_bottom shield_top)"
  obtain m where m: "max_x_of progress = Inr m"
    using max_x_of_ok by blast
  have u: "pixel_body sz cx cy y x =
          (if ny < shield_top \<or> shield_bottom < ny then Inr [0, 0, 0, 0]
           else if m < \<bar>nx\<bar> then Inr [0, 0, 0, 0] else shade nx m progress)"
    by (rule pixel_body_unfold [OF assms nx_def ny_def progress_def m])
  have c0: "[0, 0, 0, 0] \<in> colours" by (simp add: colours_def)
  have cs: "\<exists>px. shade nx m progress = Inr px \<and> px \<in> colours"
    using shade_cases [of nx m progress] by (auto simp: colours_def)
  show ?thesis unfolding u using c0 cs by simp
qed


lemma pixel_body_value:
  assumes "0 < sz" "sz \<le> max_int" "0 \<le> x" "x < sz" "0 \<le> y" "y < sz"
  shows "pixel_body sz (rne (of_int sz / 2)) (rne (of_int sz / 2)) y x = Inr (pixel_value sz y x)"
    and "pixel_value sz y x \<in> colours"
  using pixel_body_ok [OF assms, of "rne (of_int sz / 2)" "rne (of_int sz / 2)"]
  by (auto simp: pixel_value_def)

lemma colours_length: "px \<in> colours \<Longrightarrow> length px = 4"
  by (auto simp: colours_def)

lemma colours_bytes: "px \<in> colours \<Longrightarrow> list_all (\<lambda>v. 0 \<le> v \<and> v < 256) px"
  by (auto simp: colours_def)

lemma list_all_concat_map:
  "(\<And>v. v \<in> set xs \<Longrightarrow> list_all P (f v)) \<Longrightarrow> list_all P (concat (map f xs))"
  by (induction xs) simp_all

lemma make_row_ok:
  assumes "0 < sz" "sz \<le> max_int" "0 \<le> y" "y < sz"
  shows "make_row sz (rne (of_int sz / 2)) (rne (of_int sz / 2)) y = Inr (row_value sz y)"
proof -
  let ?c = "rne (of_int sz / 2)"
  have b: "\<And>x. x \<in> set (range_py sz) \<Longrightarrow> pixel_body sz ?c ?c y x = Inr (pixel_value sz y x)"
    using pixel_body_value(1) [OF assms(1,2) _ _ assms(3,4)] by (simp add: in_range_py)
  have r: "row_loop (pixel_body sz ?c ?c y) (range_py sz) []
             = Inr (concat (map (pixel_value sz y) (range_py sz)))"
    using row_loop_ok [of "range_py sz" "pixel_body sz ?c ?c y" "pixel_value sz y" "[]"] b by simp
  have "\<And>x. x \<in> set (range_py sz) \<Longrightarrow> list_all (\<lambda>v. 0 \<le> v \<and> v < 256) (pixel_value sz y x)"
    using pixel_body_value(2) [OF assms(1,2) _ _ assms(3,4)] colours_bytes by (simp add: in_range_py)
  then have "list_all (\<lambda>v. 0 \<le> v \<and> v < 256) (concat (map (pixel_value sz y) (range_py sz)))"
    by (rule list_all_concat_map)
  then show ?thesis by (simp add: make_row_def r to_bytes_def row_value_def)
qed

lemma rasterize_ok:
  assumes "0 < sz" "sz \<le> max_int"
  shows "rasterize sz = Inr (map (row_value sz) (range_py sz))"
proof -
  let ?c = "rne (of_int sz / 2)"
  have h: "int_true_div sz 2 = Inr ?c" using assms by (intro half_ok) simp
  have "\<And>y. y \<in> set (range_py sz) \<Longrightarrow> make_row sz ?c ?c y = Inr (row_value sz y)"
    using make_row_ok [OF assms] by (simp add: in_range_py)
  then have "rows_loop (make_row sz ?c ?c) (range_py sz) [] = Inr ([] @ map (row_value sz) (range_py sz))"
    by (rule rows_loop_ok)
  then show ?thesis by (simp add: rasterize_def h)
qed

lemma pixel_at_rasterize:
  assumes "0 < sz" "sz \<le> max_int" "rasterize sz = Inr img" "x < nat sz" "y < nat sz"
  shows "pixel_at img x y = map word_of_int (pixel_value sz (int y) (int x))"
proof -
  have img: "img = map (row_value sz) (range_py sz)"
    using rasterize_ok [OF assms(1,2)] assms(3) by simp
  have row: "img ! y = row_value sz (int y)"
    using assms(5) by (simp add: img length_range_py nth_range_py)
  have len: "\<And>v. v \<in> set (range_py sz) \<Longrightarrow> length (pixel_value sz (int y) v) = 4"
    using pixel_body_value(2) [OF assms(1,2), of _ "int y"] assms(5) colours_length
    by (simp add: in_range_py)
  have "take 4 (drop (4 * x) (concat (map (pixel_value sz (int y)) (range_py sz))))
          = pixel_value sz (int y) (range_py sz ! x)"
    using len assms(4) by (intro take_drop_blocks) (simp_all add: length_range_py)
  then show ?thesis using assms(4)
    by (simp add: pixel_at_def row row_value_def take_map drop_map nth_range_py)
qed

lemma rasterize_shape:
  assumes "0 < sz" "sz \<le> max_int" "rasterize sz = Inr img"
  shows "image_ok sz img"
proof -
  have img: "img = map (row_value sz) (range_py sz)"
    using rasterize_ok [OF assms(1,2)] assms(3) by simp
  have "\<And>y. y \<in> set (range_py sz) \<Longrightarrow> int (length (row_value sz y)) = 4 * sz"
  proof -
    fix y assume y: "y \<in> set (range_py sz)"
    have "\<And>v. v \<in> set (range_py sz) \<Longrightarrow> length (pixel_value sz y v) = 4"
      using pixel_body_value(2) [OF assms(1,2), of _ y] y colours_length
      by (simp add: in_range_py)
    then have "length (concat (map (pixel_value sz y) (range_py sz))) = 4 * length (range_py sz)"
      by (rule length_blocks)
    then show "int (length (row_value sz y)) = 4 * sz"
      using assms(1) by (simp add: row_value_def length_range_py)
  qed
  then show ?thesis using assms(1)
    by (simp add: image_ok_def img length_range_py list_all_iff)
qed


lemma normalized_Inr:
  "normalized v c w = Inr q \<Longrightarrow> q = rne (fsub (rne (of_int v)) c / rne (of_int w / 2))"
  by (simp add: normalized_def float_of_int_def int_true_div_def fdiv_def Let_def
      split: if_splits sum.splits)

lemma shade_colours: "shade nx m p = Inr px \<Longrightarrow> px \<in> colours"
  using shade_cases [of nx m p] by (auto simp: colours_def)

lemma pixel_body_Inr_cases:
  assumes "pixel_body w cx cy y x = Inr px"
  obtains nx ny where "normalized x cx w = Inr nx" "normalized y cy w = Inr ny"
    "ny < shield_top \<or> shield_bottom < ny" "px = [0, 0, 0, 0]"
  | nx ny progress m where "normalized x cx w = Inr nx" "normalized y cy w = Inr ny"
    "\<not> (ny < shield_top \<or> shield_bottom < ny)" "progress_of ny = Inr progress"
    "max_x_of progress = Inr m" "m < \<bar>nx\<bar>" "px = [0, 0, 0, 0]"
  | nx ny progress m where "normalized x cx w = Inr nx" "normalized y cy w = Inr ny"
    "\<not> (ny < shield_top \<or> shield_bottom < ny)" "progress_of ny = Inr progress"
    "max_x_of progress = Inr m" "\<not> m < \<bar>nx\<bar>" "shade nx m progress = Inr px"
proof -
  obtain nx where nx: "normalized x cx w = Inr nx"
    using assms by (cases "normalized x cx w") (simp_all add: pixel_body_def)
  obtain ny where ny: "normalized y cy w = Inr ny"
    using assms nx by (cases "normalized y cy w") (simp_all add: pixel_body_def)
  show ?thesis
  proof (cases "ny < shield_top \<or> shield_bottom < ny")
    case True
    then have "px = [0, 0, 0, 0]" using assms nx ny by (simp add: pixel_body_def)
    then show ?thesis using that(1) nx ny True by blast
  next
    case False
    obtain progress where pr: "progress_of ny = Inr progress"
      using progress_of_ok by blast
    obtain m where m: "max_x_of progress = Inr m"
      using max_x_of_ok by blast
    have body: "Inr px = (if m < \<bar>nx\<bar> then Inr [0, 0, 0, 0] else shade nx m progress)"
      using assms nx ny False pr m by (simp add: pixel_body_def)
    show ?thesis
    proof (cases "m < \<bar>nx\<bar>")
      case True
      then have "px = [0, 0, 0, 0]" using body by simp
      then show ?thesis using that(2) nx ny False pr m True by blast
    next
      case nb: False
      then have "shade nx m progress = Inr px" using body by simp
      then show ?thesis using that(3) nx ny False pr m nb by blast
    qed
  qed
qed

lemma pixel_body_Inr_colours:
  assumes "pixel_body w cx cy y x = Inr px"
  shows "px \<in> colours"
  using assms
proof (cases rule: pixel_body_Inr_cases)
  case 1 then show ?thesis by (simp add: colours_def)
next
  case 2 then show ?thesis by (simp add: colours_def)
next
  case 3 then show ?thesis by (simp add: shade_colours)
qed

lemma row_loop_Inr:
  "row_loop body xs row = Inr r \<Longrightarrow>
     r = row @ concat (map (\<lambda>x. case body x of Inl e \<Rightarrow> [] | Inr px \<Rightarrow> px) xs)
     \<and> (\<forall>x\<in>set xs. \<exists>px. body x = Inr px)"
proof (induction xs arbitrary: row)
  case Nil
  then show ?case by simp
next
  case (Cons a xs)
  then obtain px where px: "body a = Inr px"
    by (cases "body a") simp_all
  then have "row_loop body xs (row @ px) = Inr r" using Cons.prems by simp
  from Cons.IH [OF this] show ?case using px by simp
qed

lemma rows_loop_Inr:
  "rows_loop mk ys pixels = Inr img \<Longrightarrow>
     img = pixels @ map (\<lambda>y. case mk y of Inl e \<Rightarrow> [] | Inr r \<Rightarrow> r) ys
     \<and> (\<forall>y\<in>set ys. \<exists>r. mk y = Inr r)"
proof (induction ys arbitrary: pixels)
  case Nil
  then show ?case by simp
next
  case (Cons a ys)
  then obtain r where r: "mk a = Inr r"
    by (cases "mk a") simp_all
  then have "rows_loop mk ys (pixels @ [r]) = Inr img" using Cons.prems by simp
  from Cons.IH [OF this] show ?case using r by simp
qed

lemma int_true_div_Inr: "int_true_div a 2 = Inr c \<Longrightarrow> c = rne (of_int a / 2)"
  by (simp add: int_true_div_def Let_def split: if_splits)

lemma make_row_Inr:
  assumes "make_row sz (rne (of_int sz / 2)) (rne (of_int sz / 2)) y = Inr r"
  shows "r = row_value sz y"
    and "\<forall>x\<in>set (range_py sz). \<exists>px. pixel_body sz (rne (of_int sz / 2)) (rne (of_int sz / 2)) y x = Inr px"
proof -
  let ?c = "rne (of_int sz / 2)"
  obtain row where row: "row_loop (pixel_body sz ?c ?c y) (range_py sz) [] = Inr row"
    using assms by (cases "row_loop (pixel_body sz ?c ?c y) (range_py sz) []") (simp_all add: make_row_def)
  have tb: "to_bytes row = Inr r" using assms row by (simp add: make_row_def)
  have rv: "row = concat (map (pixel_value sz y) (range_py sz))"
    using row_loop_Inr [OF row] by (simp add: pixel_value_def [abs_def])
  show "r = row_value sz y" using tb rv by (simp add: to_bytes_def row_value_def split: if_splits)
  show "\<forall>x\<in>set (range_py sz). \<exists>px. pixel_body sz ?c ?c y x = Inr px"
    using row_loop_Inr [OF row] by blast
qed

lemma rasterize_Inr:
  assumes "rasterize sz = Inr img"
  shows "img = map (row_value sz) (range_py sz)"
    and "\<forall>y\<in>set (range_py sz). \<forall>x\<in>set (range_py sz).
           pixel_body sz (rne (of_int sz / 2)) (rne (of_int sz / 2)) y x = Inr (pixel_value sz y x)"
proof -
  let ?c = "rne (of_int sz / 2)"
  obtain c where c: "int_true_div sz 2 = Inr c"
    using assms by (cases "int_true_div sz 2") (simp_all add: rasterize_def)
  then have cc: "c = ?c" by (rule int_true_div_Inr)
  have rl: "rows_loop (make_row sz ?c ?c) (range_py sz) [] = Inr img"
    using assms c cc by (simp add: rasterize_def)
  let ?g = "\<lambda>y. case make_row sz ?c ?c y of Inl e \<Rightarrow> [] | Inr r \<Rightarrow> r"
  have g: "img = [] @ map ?g (range_py sz)" "\<forall>y\<in>set (range_py sz). \<exists>r. make_row sz ?c ?c y = Inr r"
    using rows_loop_Inr [OF rl] by blast+
  have "map ?g (range_py sz) = map (row_value sz) (range_py sz)"
  proof (rule map_cong [OF refl])
    fix y assume "y \<in> set (range_py sz)"
    then obtain r where r: "make_row sz ?c ?c y = Inr r" using g(2) by blast
    then show "?g y = row_value sz y" using make_row_Inr(1) [OF r] by simp
  qed
  then show "img = map (row_value sz) (range_py sz)" using g(1) by simp
  show "\<forall>y\<in>set (range_py sz). \<forall>x\<in>set (range_py sz).
           pixel_body sz ?c ?c y x = Inr (pixel_value sz y x)"
  proof (intro ballI)
    fix y x assume y: "y \<in> set (range_py sz)" and x: "x \<in> set (range_py sz)"
    obtain r where "make_row sz ?c ?c y = Inr r" using g(2) y by blast
    from make_row_Inr(2) [OF this] x obtain px where "pixel_body sz ?c ?c y x = Inr px" by blast
    then show "pixel_body sz ?c ?c y x = Inr (pixel_value sz y x)"
      by (simp add: pixel_value_def)
  qed
qed

lemma pixel_at_Inr:
  assumes "rasterize sz = Inr img" "x < nat sz" "y < nat sz"
  shows "pixel_body sz (rne (of_int sz / 2)) (rne (of_int sz / 2)) (int y) (int x)
           = Inr (pixel_value sz (int y) (int x))"
    and "pixel_at img x y = map word_of_int (pixel_value sz (int y) (int x))"
proof -
  let ?c = "rne (of_int sz / 2)"
  have iy: "int y \<in> set (range_py sz)" and ix: "int x \<in> set (range_py sz)"
    using assms(2,3) by (simp_all add: in_range_py)
  show b: "pixel_body sz ?c ?c (int y) (int x) = Inr (pixel_value sz (int y) (int x))"
    using rasterize_Inr(2) [OF assms(1)] iy ix by blast
  have img: "img = map (row_value sz) (range_py sz)"
    by (rule rasterize_Inr(1) [OF assms(1)])
  have row: "img ! y = row_value sz (int y)"
    using assms(3) by (simp add: img length_range_py nth_range_py)
  have len: "\<And>v. v \<in> set (range_py sz) \<Longrightarrow> length (pixel_value sz (int y) v) = 4"
  proof -
    fix v assume "v \<in> set (range_py sz)"
    then have "pixel_body sz ?c ?c (int y) v = Inr (pixel_value sz (int y) v)"
      using rasterize_Inr(2) [OF assms(1)] iy by blast
    then show "length (pixel_value sz (int y) v) = 4"
      using pixel_body_Inr_colours colours_length by blast
  qed
  have "take 4 (drop (4 * x) (concat (map (pixel_value sz (int y)) (range_py sz))))
          = pixel_value sz (int y) (range_py sz ! x)"
    using len assms(2) by (intro take_drop_blocks) (simp_all add: length_range_py)
  then show "pixel_at img x y = map word_of_int (pixel_value sz (int y) (int x))"
    using assms(2)
    by (simp add: pixel_at_def row row_value_def take_map drop_map nth_range_py)
qed


lemma lit_17: "rne (rne (85 / 100) + rne (85 / 100)) = rne (17 / 10)"
  by code_simp

lemma progress_of_spec: "progress_of ny = Inr (rne (rne (ny + rne (85 / 100)) / rne (17 / 10)))"
  using lit_17 by (simp add: progress_of_ok fsub_def shield_top_def shield_bottom_def)

lemma max_x_of_spec: "max_x_of progress = Inr (spec_max_x progress)"
  using lit_pos(2)
  by (simp add: max_x_of_def spec_max_x_def fdiv_def fsub_def fmul_def shield_width_top_def
      mult.commute)

lemma shade_spec:
  "shade nx m progress = Inr px \<Longrightarrow>
     map word_of_int px =
       (if rne (85 / 100) < (if m \<le> 0 then 0 else rne (\<bar>nx\<bar> / m))
           \<or> progress < rne (5 / 100) \<or> rne (95 / 100) < progress
        then [30, 136, 229, 255] else [30, 58, 95, 255 :: byte])"
  by (auto simp: shade_def border_ratio_of_def fdiv_def Let_def not_less split: if_splits)

lemma pixel_body_spec:
  assumes "pixel_body sz (rne (of_int sz / 2)) (rne (of_int sz / 2)) y x = Inr px"
  shows "map word_of_int px = spec_pixel sz x y"
  using assms
proof (cases rule: pixel_body_Inr_cases)
  case (1 nx ny)
  have ny: "ny = spec_coord sz y"
    using normalized_Inr [OF 1(2)] by (simp add: spec_coord_def fsub_def)
  show ?thesis using 1(3,4) unfolding ny
    by (simp add: spec_pixel_def Let_def shield_top_def shield_bottom_def)
next
  case (2 nx ny progress m)
  have nx: "nx = spec_coord sz x"
    using normalized_Inr [OF 2(1)] by (simp add: spec_coord_def fsub_def)
  have ny: "ny = spec_coord sz y"
    using normalized_Inr [OF 2(2)] by (simp add: spec_coord_def fsub_def)
  have pr: "progress = rne (rne (ny + rne (85 / 100)) / rne (17 / 10))"
    using 2(4) by (simp add: progress_of_spec)
  have m: "m = spec_max_x progress" using 2(5) by (simp add: max_x_of_spec)
  show ?thesis using 2(3,6,7) unfolding nx ny pr m
    by (simp add: spec_pixel_def Let_def shield_top_def shield_bottom_def)
next
  case (3 nx ny progress m)
  have nx: "nx = spec_coord sz x"
    using normalized_Inr [OF 3(1)] by (simp add: spec_coord_def fsub_def)
  have ny: "ny = spec_coord sz y"
    using normalized_Inr [OF 3(2)] by (simp add: spec_coord_def fsub_def)
  have pr: "progress = rne (rne (ny + rne (85 / 100)) / rne (17 / 10))"
    using 3(4) by (simp add: progress_of_spec)
  have m: "m = spec_max_x progress" using 3(5) by (simp add: max_x_of_spec)
  have "map word_of_int px =
       (if rne (85 / 100) < (if m \<le> 0 then 0 else rne (\<bar>nx\<bar> / m))
           \<or> progress < rne (5 / 100) \<or> rne (95 / 100) < progress
        then [30, 136, 229, 255] else [30, 58, 95, 255 :: byte])"
    by (rule shade_spec [OF 3(7)])
  then show ?thesis using 3(3,6) unfolding nx ny pr m
    by (simp add: spec_pixel_def Let_def shield_top_def shield_bottom_def)
qed

lemma spec_2_11: "spec_pixel 2 1 1 = [30, 58, 95, 255]"
  by code_simp


lemma max_int_ge: "2 \<le> max_int" "2 ^ 53 \<le> max_int"
  by (simp_all add: max_int_def)

lemma row_value_spec:
  assumes "0 < sz" "sz \<le> max_int" "0 \<le> y" "y < sz"
  shows "row_value sz y = concat (map (\<lambda>x. spec_pixel sz x y) (range_py sz))"
proof -
  have "map (map word_of_int \<circ> pixel_value sz y) (range_py sz)
          = map (\<lambda>x. spec_pixel sz x y) (range_py sz)"
  proof (rule map_cong [OF refl])
    fix x assume "x \<in> set (range_py sz)"
    then have "pixel_body sz (rne (of_int sz / 2)) (rne (of_int sz / 2)) y x = Inr (pixel_value sz y x)"
      using pixel_body_value(1) [OF assms(1,2) _ _ assms(3,4)] by (simp add: in_range_py)
    then show "(map word_of_int \<circ> pixel_value sz y) x = spec_pixel sz x y"
      using pixel_body_spec by simp
  qed
  then show ?thesis by (simp only: row_value_def map_concat map_map)
qed

lemma rasterize_spec:
  assumes "0 < sz" "sz \<le> max_int"
  shows "rasterize sz
           = Inr (map (\<lambda>y. concat (map (\<lambda>x. spec_pixel sz x y) (range_py sz))) (range_py sz))"
proof -
  have "map (row_value sz) (range_py sz)
          = map (\<lambda>y. concat (map (\<lambda>x. spec_pixel sz x y) (range_py sz))) (range_py sz)"
    using row_value_spec [OF assms] by (intro map_cong [OF refl]) (simp add: in_range_py)
  then show ?thesis by (simp add: rasterize_ok [OF assms])
qed

lemma range_py_2: "range_py 2 = [0, 1]"
  by (simp add: range_py_def numeral_2_eq_2 upt_rec)

lemma spec_2: "spec_pixel 2 0 0 = [0, 0, 0, 0]" "spec_pixel 2 1 0 = [0, 0, 0, 0]"
  "spec_pixel 2 0 1 = [0, 0, 0, 0]" "spec_pixel 2 1 1 = [30, 58, 95, 255]"
  by code_simp+

lemma rasterize_2:
  "rasterize 2 = Inr [[0, 0, 0, 0, 0, 0, 0, 0], [0, 0, 0, 0, 30, 58, 95, 255]]"
  using rasterize_spec [of 2] max_int_ge(1) by (simp add: range_py_2 spec_2)


lemma rne_2_1024: "rne (2 ^ 1024) = 2 ^ 1024"
  using rne_pow2 [of 1024] by (simp add: power_int_def)

lemma half_overflow: "int_true_div (2 ^ 1025) 2 = Inl OverflowError"
proof -
  have "(of_int (2 ^ 1025) :: rat) / of_int 2 = 2 ^ 1024" by simp
  then have "rne ((of_int (2 ^ 1025) :: rat) / of_int 2) = 2 ^ 1024"
    by (simp only: rne_2_1024)
  moreover have "\<not> \<bar>(2::rat) ^ 1024\<bar> \<le> dbl_max" by (simp add: dbl_max_def)
  ultimately show ?thesis by (simp only: int_true_div_def Let_def) simp
qed

lemma range_py_nonpos: "n \<le> 0 \<Longrightarrow> range_py n = []"
  by (simp add: range_py_def)

lemma image_ok_total:
  assumes "image_ok sz img"
  shows "int (length (concat img)) = sz * sz * 4"
proof -
  have "list_all (\<lambda>row. int (length row) = 4 * sz) img \<Longrightarrow>
          int (length (concat img)) = int (length img) * (4 * sz)"
    by (induction img) (simp_all add: algebra_simps)
  then show ?thesis using assms by (simp add: image_ok_def)
qed

lemma byte_range: "0 \<le> uint (b :: byte) \<and> uint b \<le> 255"
  using uint_bounded [of b] by simp

lemma shade_abs: "\<bar>nx\<bar> = \<bar>nx'\<bar> \<Longrightarrow> shade nx m p = shade nx' m p"
  by (simp add: shade_def border_ratio_of_def)

lemma pixel_body_abs:
  assumes "normalized x cx w = Inr nx" "normalized x' cx w = Inr nx'" "\<bar>nx\<bar> = \<bar>nx'\<bar>"
  shows "pixel_body w cx cy y x = pixel_body w cx cy y x'"
  using assms shade_abs [OF assms(3)]
  by (simp add: pixel_body_def split: sum.splits)

lemma coord_exact:
  assumes "0 \<le> v" "v \<le> sz" "sz < 2 ^ 53"
  shows "fsub (rne (of_int v)) (rne (of_int sz / 2)) = of_int (2 * v - sz) / 2"
proof -
  have 1: "rne (of_int v) = of_int v" using assms by (intro rne_int) simp
  have 2: "rne (of_int sz / 2) = of_int sz / 2" using assms by (intro rne_half_int) simp
  have 3: "rne (of_int (2 * v - sz) / 2) = of_int (2 * v - sz) / 2"
    using assms by (intro rne_half_int) simp
  have "(of_int v :: rat) - of_int sz / 2 = of_int (2 * v - sz) / 2" by simp
  then show ?thesis by (simp only: fsub_def 1 2 3)
qed

lemma normalized_mirror:
  assumes "0 \<le> v" "v \<le> sz" "sz < 2 ^ 53"
    and "normalized v (rne (of_int sz / 2)) sz = Inr q"
    and "normalized (sz - v) (rne (of_int sz / 2)) sz = Inr q'"
  shows "q' = - q"
proof -
  let ?h = "rne (of_int sz / 2 :: rat)"
  note E = coord_exact [OF assms(1,2,3)]
  have q: "q = rne ((of_int (2 * v - sz) / 2) / ?h)"
    using normalized_Inr [OF assms(4)] unfolding E .
  have "0 \<le> sz - v" "sz - v \<le> sz" using assms by simp_all
  note E' = coord_exact [OF this assms(3)]
  have q': "q' = rne ((of_int (2 * (sz - v) - sz) / 2) / ?h)"
    using normalized_Inr [OF assms(5)] unfolding E' .
  have i: "2 * (sz - v) - sz = - (2 * v - sz)" by simp
  have n: "(of_int (2 * (sz - v) - sz) :: rat) / 2 = - (of_int (2 * v - sz) / 2)"
    unfolding i by (simp only: of_int_minus minus_divide_left)
  have "(of_int (2 * (sz - v) - sz) / 2) / ?h = - ((of_int (2 * v - sz) / 2) / ?h)"
    unfolding n by (rule minus_divide_left [symmetric])
  then show ?thesis unfolding q q' by (simp only: rne_neg)
qed

lemma lit_taper_top: "rne (rne (1 - rne (6 / 10)) / rne (4 / 10)) = 1"
  by code_simp

lemma lit_085_idem: "rne (rne (85 / 100)) = rne (85 / 100)"
  by code_simp

lemma lit_tip_width: "1125 / 10000 \<le> rne (rne (75 / 100) * rne (1 - rne (85 / 100)))"
  by code_simp

lemma lit_top_width: "1125 / 10000 \<le> rne (75 / 100)"
  by code_simp

lemma rne_1: "rne 1 = 1"
  using rne_int [of 1] by simp

lemma progress_range:
  assumes "shield_top \<le> ny" "ny \<le> shield_bottom" "progress_of ny = Inr p"
  shows "0 \<le> p" and "p \<le> 1"
proof -
  let ?d = "rne (85 / 100)"
  let ?D = "rne (?d + ?d)"
  let ?a = "rne (ny + ?d)"
  have d: "0 < ?d" by (rule lit_pos(1))
  have D: "0 < ?D" using d by (intro rne_pos_pos) simp
  have p: "p = rne (?a / ?D)"
    using assms(3) by (simp add: progress_of_ok fsub_def shield_top_def shield_bottom_def)
  have "0 \<le> ny + ?d" using assms(1) by (simp add: shield_top_def)
  then have a0: "0 \<le> ?a" by (rule rne_nonneg)
  have "ny + ?d \<le> ?d + ?d" using assms(2) by (simp add: shield_bottom_def)
  then have aD: "?a \<le> ?D" by (rule rne_mono)
  have "0 \<le> ?a / ?D" using a0 D by simp
  then show "0 \<le> p" unfolding p by (rule rne_nonneg)
  have "?a / ?D \<le> 1" using aD D by simp
  then have "rne (?a / ?D) \<le> rne 1" by (rule rne_mono)
  then show "p \<le> 1" unfolding p by (simp only: rne_1)
qed

lemma max_x_lower:
  assumes "p \<le> 1" "max_x_of p = Inr m"
  shows "1125 / 10000 \<le> m"
proof (cases "p < rne (6 / 10)")
  case True
  then have "m = rne (75 / 100)" using assms(2) by (simp add: max_x_of_def shield_width_top_def)
  then show ?thesis using lit_top_width by simp
next
  case False
  let ?d = "rne (85 / 100)"
  let ?w = "rne (75 / 100)"
  let ?t0 = "rne (p - rne (6 / 10))"
  let ?taper = "rne (?t0 / rne (4 / 10))"
  let ?m1 = "rne (?taper * ?d)"
  let ?s = "rne (1 - ?m1)"
  have l4: "0 < rne (4 / 10)" by (rule lit_pos(2))
  have d: "0 < ?d" by (rule lit_pos(1))
  have w: "0 < ?w" by (intro rne_pos_pos) simp
  have m: "m = rne (?w * ?s)"
    using assms(2) False l4
    by (simp add: max_x_of_def fdiv_def fsub_def fmul_def shield_width_top_def)
  have "p - rne (6 / 10) \<le> 1 - rne (6 / 10)" using assms(1) by simp
  then have "?t0 \<le> rne (1 - rne (6 / 10))" by (rule rne_mono)
  then have "?t0 / rne (4 / 10) \<le> rne (1 - rne (6 / 10)) / rne (4 / 10)"
    using l4 by (simp add: divide_right_mono)
  then have "?taper \<le> rne (rne (1 - rne (6 / 10)) / rne (4 / 10))" by (rule rne_mono)
  then have taper: "?taper \<le> 1" by (simp only: lit_taper_top)
  have "?taper * ?d \<le> 1 * ?d" using taper d by (intro mult_right_mono) simp_all
  then have "?taper * ?d \<le> ?d" by simp
  then have "?m1 \<le> rne ?d" by (rule rne_mono)
  then have m1: "?m1 \<le> ?d" by (simp only: lit_085_idem)
  have "1 - ?d \<le> 1 - ?m1" using m1 by simp
  then have s: "rne (1 - ?d) \<le> ?s" by (rule rne_mono)
  have "?w * rne (1 - ?d) \<le> ?w * ?s" using s w by (intro mult_left_mono) simp_all
  then have "rne (?w * rne (1 - ?d)) \<le> rne (?w * ?s)" by (rule rne_mono)
  then show ?thesis unfolding m using lit_tip_width by (rule_tac order_trans)
qed

lemma normalized_centre: "normalized 1 1 2 = Inr 0"
proof -
  have "normalized 1 1 2 = Inr (rne (fsub (rne (of_int 1)) 1 / rne (of_int 2 / 2)))"
    using max_int_ge(1) by (intro normalized_ok) simp_all
  then show ?thesis by (simp add: fsub_def rne_1 rne_0)
qed

lemma centre_row: "progress_of 0 = Inr (1 / 2)" "max_x_of (1 / 2) = Inr (3 / 4)"
  "\<not> (0 < shield_top \<or> shield_bottom < 0)"
  by code_simp+

lemma pixel_of_rasterize:
  assumes "0 < sz" "sz \<le> max_int" "x < nat sz" "y < nat sz"
  shows "\<exists>img. rasterize sz = Inr img \<and> pixel_at img x y = spec_pixel sz (int x) (int y)"
proof -
  obtain img where img: "rasterize sz = Inr img"
    using rasterize_ok [OF assms(1,2)] by blast
  have "pixel_at img x y = spec_pixel sz (int x) (int y)"
    unfolding pixel_at_Inr(2) [OF img assms(3,4)]
    using pixel_at_Inr(1) [OF img assms(3,4)] by (rule pixel_body_spec)
  then show ?thesis using img by blast
qed

lemma max_int_ge_more: "80 \<le> max_int" "4 \<le> max_int"
  by (simp_all add: max_int_def)

lemma spec_80_13_50: "spec_pixel 80 13 50 = [0, 0, 0, 0]"
  by code_simp

lemma claim_80_13_50: "claim_pixel 80 13 50 = [30, 136, 229, 255]"
  by (simp add: claim_pixel_def Let_def)

lemma spec_4_1_1: "spec_pixel 4 1 1 = [30, 58, 95, 255]"
  by code_simp

section \<open>Claims about the rasterizer\<close>

text \<open>
  C1, as the spec states it: the pixel of rasterize(size) at (x, y) is the one that the
  formulas for nx, ny, progress and max_x give. Read over exact numbers, the formulas give
  \<open>|nx| = max_x = 0.675\<close> at size 80, column 13, row 50, hence an accent blue border
  pixel. The script computes \<^verbatim>\<open>max_x\<close> in floats as 0.6749999999999999, below
  \<^verbatim>\<open>abs(nx)\<close>, and the pixel of its image is transparent.
\<close>

theorem exact_formula_differs:
  "(case rasterize 80 of Inl e \<Rightarrow> False | Inr img \<Rightarrow> pixel_at img 13 50 = [0, 0, 0, 0])
   \<and> claim_pixel 80 13 50 = [30, 136, 229, 255]"
proof -
  obtain img where "rasterize 80 = Inr img" "pixel_at img 13 50 = spec_pixel 80 (int 13) (int 50)"
    using pixel_of_rasterize [of 80 13 50] max_int_ge_more(1) by auto
  then show ?thesis by (simp add: spec_80_13_50 claim_80_13_50)
qed

text \<open>
  C1, amended: for every size > 0 and every pixel (x, y) of rasterize(size), with every
  operation below computed in binary64 (the exact result rounded to the nearest double,
  ties to even) and every decimal literal the double nearest to it: with the normalized
  coordinates nx = (x - size/2) / (size/2) and ny = (y - size/2) / (size/2), the pixel is
  (0,0,0,0) when ny is below -0.85 or above 0.85; otherwise, with
  progress = (ny + 0.85) / 1.7, taper = (progress - 0.6) / 0.4 and max_x = 0.75 for
  progress < 0.6 and 0.75 * (1 - 0.85 * taper) else, it is (0,0,0,0) when |nx| > max_x,
  and otherwise opaque, of colour (30,136,229) when |nx| / max_x > 0.85 (the ratio being 0
  when max_x is not positive) or progress < 0.05 or progress > 0.95, and of colour
  (30,58,95) if not.
\<close>

theorem pixel_follows_spec:
  assumes "0 < sz" and "rasterize sz = Inr img" and "x < nat sz" and "y < nat sz"
  shows "pixel_at img x y = spec_pixel sz (int x) (int y)"
  unfolding pixel_at_Inr(2) [OF assms(2,3,4)]
  using pixel_at_Inr(1) [OF assms(2,3,4)] by (rule pixel_body_spec)

theorem pixel_follows_spec_witness:
  "(0::int) < 2 \<and> rasterize 2 = Inr [[0, 0, 0, 0, 0, 0, 0, 0], [0, 0, 0, 0, 30, 58, 95, 255]]
   \<and> (1::nat) < nat 2
   \<and> pixel_at [[0, 0, 0, 0, 0, 0, 0, 0], [0, 0, 0, 0, 30, 58, 95, 255]] 1 1 = spec_pixel 2 1 1
   \<and> spec_pixel 2 1 1 = [30, 58, 95, 255]"
  using pixel_follows_spec [of 2 "[[0, 0, 0, 0, 0, 0, 0, 0], [0, 0, 0, 0, 30, 58, 95, 255]]" 1 1]
    rasterize_2 spec_2(4)
  by simp

text \<open>
  C4, as the spec states it: for every size \<le> 0 the rasterizer fails and produces no
  image. The source has no check of \<^verbatim>\<open>size\<close>: for size 0 both loops run over an empty
  range and the result is the empty list of rows.
\<close>

theorem rasterize_zero: "rasterize 0 = Inr []"
  using half_ok [of 0] by (simp add: rasterize_def range_py_nonpos max_int_def)

text \<open>
  C4, amended: for every size \<le> 0 that a float can hold (down to \<open>- max_int\<close>), the
  rasterizer raises nothing and returns the image without rows.
\<close>

theorem rasterize_nonpositive:
  assumes "- max_int \<le> sz" and "sz \<le> 0"
  shows "rasterize sz = Inr []"
proof -
  have "int_true_div sz 2 = Inr (rne (of_int sz / 2))"
    using assms by (intro half_ok) simp
  then show ?thesis using assms(2) by (simp add: rasterize_def range_py_nonpos)
qed

theorem rasterize_nonpositive_witness:
  "- max_int \<le> - 3 \<and> (- 3 :: int) \<le> 0 \<and> rasterize (- 3) = Inr []"
  using rasterize_nonpositive [of "- 3"] max_int_ge(1) by (simp add: max_int_def)

text \<open>
  C8, as the spec states it: for every size > 0, rasterize(size) returns an image. Line 8
  divides the size by 2 as a float, and \<open>2^1025 / 2\<close> is beyond the largest float:
  Python raises \<^verbatim>\<open>OverflowError\<close>.
\<close>

theorem rasterize_overflow: "rasterize (2 ^ 1025) = Inl OverflowError"
  by (simp only: rasterize_def half_overflow sum.case)

text \<open>
  C8, amended: for every size > 0 not above the largest float, rasterize(size) returns an
  image of size rows of size pixels, size * size pixels of four channels in all, and
  every channel value is in 0 .. 255.
\<close>

theorem rasterize_returns:
  assumes "0 < sz" and "sz \<le> max_int"
  shows "\<exists>img. rasterize sz = Inr img \<and> image_ok sz img
           \<and> int (length (concat img)) = sz * sz * 4
           \<and> (\<forall>row\<in>set img. \<forall>b\<in>set row. 0 \<le> uint b \<and> uint b \<le> 255)"
proof -
  obtain img where img: "rasterize sz = Inr img"
    using rasterize_ok [OF assms] by blast
  have ok: "image_ok sz img" by (rule rasterize_shape [OF assms img])
  show ?thesis using img ok image_ok_total [OF ok] byte_range by blast
qed

theorem rasterize_returns_witness:
  "(0::int) < 2 \<and> 2 \<le> max_int
   \<and> (\<exists>img. rasterize 2 = Inr img \<and> image_ok 2 img \<and> int (length (concat img)) = 2 * 2 * 4
        \<and> (\<forall>row\<in>set img. \<forall>b\<in>set row. 0 \<le> uint b \<and> uint b \<le> 255))"
  using rasterize_returns [of 2] max_int_ge(1) by simp

text \<open>
  C10. For every size > 0, every pixel of rasterize(size) is one of three values:
  transparent (0,0,0,0), navy (30,58,95,255) or accent blue (30,136,229,255); its alpha
  channel is 0 or 255.
\<close>

theorem pixel_three_values:
  assumes "0 < sz" and "rasterize sz = Inr img" and "x < nat sz" and "y < nat sz"
  shows "(pixel_at img x y = [0, 0, 0, 0] \<or> pixel_at img x y = [30, 58, 95, 255]
          \<or> pixel_at img x y = [30, 136, 229, 255])
         \<and> (pixel_at img x y ! 3 = 0 \<or> pixel_at img x y ! 3 = 255)"
proof -
  have "pixel_value sz (int y) (int x) \<in> colours"
    using pixel_at_Inr(1) [OF assms(2,3,4)] by (rule pixel_body_Inr_colours)
  then show ?thesis
    unfolding pixel_at_Inr(2) [OF assms(2,3,4)] colours_def by auto
qed

theorem pixel_three_values_witness:
  "(0::int) < 2 \<and> rasterize 2 = Inr [[0, 0, 0, 0, 0, 0, 0, 0], [0, 0, 0, 0, 30, 58, 95, 255]]
   \<and> (1::nat) < nat 2
   \<and> pixel_at [[0, 0, 0, 0, 0, 0, 0, 0], [0, 0, 0, 0, 30, 58, 95, 255]] 1 1 = [30, 58, 95, 255]
   \<and> pixel_at [[0, 0, 0, 0, 0, 0, 0, 0], [0, 0, 0, 0, 30, 58, 95, 255]] 1 1 ! 3 = 255"
  using pixel_three_values [of 2 "[[0, 0, 0, 0, 0, 0, 0, 0], [0, 0, 0, 0, 30, 58, 95, 255]]" 1 1]
    rasterize_2
  by (simp add: pixel_at_def)


text \<open>
  C3, as the spec states it: the pixel in column x equals the pixel in column
  size - 1 - x of the same row. In the image of size 2, row 1 has a transparent pixel in
  column 0 and an opaque one in column 1: the centre of the shape is the coordinate
  size / 2, not (size - 1) / 2, so column 0 has no mirror image.
\<close>

theorem mirror_last_column:
  "rasterize 2 = Inr [[0, 0, 0, 0, 0, 0, 0, 0], [0, 0, 0, 0, 30, 58, 95, 255]]
   \<and> pixel_at [[0, 0, 0, 0, 0, 0, 0, 0], [0, 0, 0, 0, 30, 58, 95, 255]] 0 1
       \<noteq> pixel_at [[0, 0, 0, 0, 0, 0, 0, 0], [0, 0, 0, 0, 30, 58, 95, 255]] (2 - 1 - 0) 1"
  using rasterize_2 by (simp add: pixel_at_def)

text \<open>
  C3, amended: for every size with 0 < size < 2^53 (the sizes for which the coordinates
  and their differences are floats without rounding), and all columns x in 1 .. size - 1
  and rows y in 0 .. size - 1, the pixel of rasterize(size) in column x equals the one in
  column size - x of the same row.
\<close>

theorem mirror_about_centre:
  assumes "0 < sz" and "sz < 2 ^ 53" and "rasterize sz = Inr img"
    and "1 \<le> x" and "x < nat sz" and "y < nat sz"
  shows "pixel_at img x y = pixel_at img (nat sz - x) y"
proof -
  let ?c = "rne (of_int sz / 2 :: rat)"
  let ?x' = "nat sz - x"
  have x': "?x' < nat sz" "int ?x' = sz - int x" using assms(1,4,5) by simp_all
  have b: "pixel_body sz ?c ?c (int y) (int x) = Inr (pixel_value sz (int y) (int x))"
    by (rule pixel_at_Inr(1) [OF assms(3,5,6)])
  have b': "pixel_body sz ?c ?c (int y) (int ?x') = Inr (pixel_value sz (int y) (int ?x'))"
    by (rule pixel_at_Inr(1) [OF assms(3) x'(1) assms(6)])
  obtain nx where nx: "normalized (int x) ?c sz = Inr nx"
    using b by (cases "normalized (int x) ?c sz") (simp_all add: pixel_body_def)
  obtain nx' where nx': "normalized (int ?x') ?c sz = Inr nx'"
    using b' by (cases "normalized (int ?x') ?c sz") (simp_all add: pixel_body_def)
  have "nx' = - nx"
    using normalized_mirror [of "int x" sz nx nx'] nx nx' assms(2,5) x'(2) by simp
  then have "\<bar>nx\<bar> = \<bar>nx'\<bar>" by simp
  from pixel_body_abs [OF nx nx' this]
  have "pixel_value sz (int y) (int x) = pixel_value sz (int y) (int ?x')"
    using b b' by simp
  then show ?thesis
    by (simp only: pixel_at_Inr(2) [OF assms(3,5,6)] pixel_at_Inr(2) [OF assms(3) x'(1) assms(6)])
qed

theorem mirror_about_centre_witness:
  "(0::int) < 4 \<and> (4::int) < 2 ^ 53 \<and> (1::nat) \<le> 1 \<and> (1::nat) < nat 4
   \<and> nat 4 - 1 = (3::nat)
   \<and> (\<exists>img. rasterize 4 = Inr img \<and> pixel_at img 1 1 = pixel_at img (nat 4 - 1) 1
         \<and> pixel_at img 1 1 = [30, 58, 95, 255])"
proof -
  obtain img where img: "rasterize 4 = Inr img" "pixel_at img 1 1 = spec_pixel 4 (int 1) (int 1)"
    using pixel_of_rasterize [of 4 1 1] max_int_ge_more(2) by auto
  have "pixel_at img 1 1 = pixel_at img (nat 4 - 1) 1"
    using mirror_about_centre [of 4 img 1 1] img(1) by simp
  then show ?thesis using img by (simp add: spec_4_1_1)
qed

text \<open>
  C9. For every size > 0 and every pixel that reaches line 36 (its row inside the two
  thresholds, its column inside the half-width), \<^verbatim>\<open>max_x\<close> is at least 0.1125, hence
  positive: the division of line 36 is taken and the fallback 0 is never used.
\<close>

theorem max_x_bounded_below:
  assumes "0 < sz"
    and "normalized x cx sz = Inr nx" and "normalized y cy sz = Inr ny"
    and "\<not> (ny < shield_top \<or> shield_bottom < ny)"
    and "progress_of ny = Inr progress" and "max_x_of progress = Inr max_x"
    and "\<not> max_x < \<bar>nx\<bar>"
  shows "1125 / 10000 \<le> max_x \<and> 0 < max_x
         \<and> border_ratio_of nx max_x = Inr (rne (\<bar>nx\<bar> / max_x))"
proof -
  have "shield_top \<le> ny" "ny \<le> shield_bottom" using assms(4) by simp_all
  from progress_range(2) [OF this assms(5)] have "progress \<le> 1" .
  from max_x_lower [OF this assms(6)] have b: "1125 / 10000 \<le> max_x" .
  then have p: "0 < max_x" by simp
  then show ?thesis using b by (simp add: border_ratio_of_def fdiv_def)
qed

theorem max_x_bounded_below_witness:
  "(0::int) < 2 \<and> normalized 1 1 2 = Inr 0 \<and> \<not> (0 < shield_top \<or> shield_bottom < 0)
   \<and> progress_of 0 = Inr (1 / 2) \<and> max_x_of (1 / 2) = Inr (3 / 4) \<and> \<not> (3 / 4 :: rat) < \<bar>0\<bar>
   \<and> (1125 / 10000 :: rat) \<le> 3 / 4 \<and> (0 :: rat) < 3 / 4
   \<and> border_ratio_of 0 (3 / 4) = Inr (rne (\<bar>0\<bar> / (3 / 4)))"
  using max_x_bounded_below [of 2 1 1 0 1 1 0 "1 / 2" "3 / 4"] normalized_centre centre_row
  by simp

section \<open>Chunk framing and decoding\<close>

lemma tags: "tag_IHDR = ascii ''IHDR''" "tag_IDAT = ascii ''IDAT''" "tag_IEND = ascii ''IEND''"
  by (simp_all add: tag_IHDR_def tag_IDAT_def tag_IEND_def ascii_def)

lemma pack_I_be32: "0 \<le> n \<Longrightarrow> n < 2 ^ 32 \<Longrightarrow> pack_I n = Inr (be32 (nat n))"
  by (simp add: pack_I_def be32_def word_of_int_eq_iff nat_div_distrib flip: of_nat_nat)

lemma crc_iend: "crc32 tag_IEND = 0xAE426082"
  by (simp add: crc32_def tag_IEND_def crc_byte_def crc_shift_def)

lemma crc32_range: "0 \<le> crc32 bs" "crc32 bs < 2 ^ 32"
  using uint_bounded [where 'a = 32] by (simp_all add: crc32_def)

lemma crc32_masked: "crc32 bs AND 0xFFFFFFFF = crc32 bs"
proof -
  have m: "(0xFFFFFFFF :: int) = mask 32" by (simp add: mask_eq_exp_minus_1)
  have "take_bit 32 (crc32 bs) = crc32 bs"
    using crc32_range [of bs] by (intro take_bit_int_eq_self) simp_all
  then show ?thesis unfolding m by (simp only: take_bit_eq_mask)
qed

lemma make_chunk_ok:
  assumes "length data < 2 ^ 32"
  shows "make_chunk (ascii tag) data = Inr (spec_chunk tag data)"
proof -
  have "int (length data) < int (2 ^ 32)" using assms by (simp only: of_nat_less_iff)
  then have "int (length data) < 2 ^ 32" by simp
  then have 1: "pack_I (int (length data)) = Inr (be32 (length data))"
    using pack_I_be32 [of "int (length data)"] by simp
  have 2: "pack_I (crc32 (ascii tag @ data)) = Inr (be32 (nat (crc32 (ascii tag @ data))))"
    using crc32_range by (intro pack_I_be32)
  show ?thesis
    unfolding make_chunk_def Let_def crc32_masked 1 2 spec_chunk_def by simp
qed

lemma make_chunk_Inr:
  assumes "make_chunk (ascii tag) data = Inr c"
  shows "length data < 2 ^ 32" and "c = spec_chunk tag data"
proof -
  show l: "length data < 2 ^ 32"
  proof (rule ccontr)
    assume "\<not> length data < 2 ^ 32"
    then have "(2::nat) ^ 32 \<le> length data" by simp
    then have "int (2 ^ 32) \<le> int (length data)" by (simp only: of_nat_le_iff)
    then have "\<not> int (length data) < 2 ^ 32" by simp
    then have "pack_I (int (length data)) = Inl StructError" by (simp add: pack_I_def)
    then show False using assms by (simp add: make_chunk_def)
  qed
  show "c = spec_chunk tag data" using make_chunk_ok [OF l, of tag] assms by simp
qed

lemma pack_ihdr_ok:
  assumes "0 \<le> sz" "sz < 2 ^ 32"
  shows "pack_IIBBBBB sz sz 8 6 0 0 0 = Inr (spec_ihdr (nat sz) (nat sz))"
  by (simp add: pack_IIBBBBB_def pack_I_be32 [OF assms] pack_B_def spec_ihdr_def)

lemma pack_ihdr_Inr:
  assumes "pack_IIBBBBB sz sz 8 6 0 0 0 = Inr ihdr"
  shows "0 \<le> sz \<and> sz < 2 ^ 32"
proof (rule ccontr)
  assume "\<not> (0 \<le> sz \<and> sz < 2 ^ 32)"
  then have "pack_I sz = Inl StructError" by (auto simp: pack_I_def)
  then show False using assms by (simp add: pack_IIBBBBB_def)
qed

lemma length_be32: "length (be32 n) = 4"
  by (simp add: be32_def)

lemma length_spec_ihdr: "length (spec_ihdr w h) = 13"
  by (simp add: spec_ihdr_def length_be32)

lemma encode_ok:
  assumes "0 \<le> sz" "sz < 2 ^ 32" "length (compress (scanlines pixels)) < 2 ^ 32"
  shows "encode compress sz pixels = Inr (spec_png (nat sz) (compress (scanlines pixels)))"
proof -
  have 1: "make_chunk tag_IHDR (spec_ihdr (nat sz) (nat sz))
             = Inr (spec_chunk ''IHDR'' (spec_ihdr (nat sz) (nat sz)))"
    unfolding tags by (rule make_chunk_ok) (simp add: length_spec_ihdr)
  have 2: "make_chunk tag_IDAT (compress (scanlines pixels))
             = Inr (spec_chunk ''IDAT'' (compress (scanlines pixels)))"
    unfolding tags by (rule make_chunk_ok [OF assms(3)])
  have 3: "make_chunk tag_IEND [] = Inr (spec_chunk ''IEND'' [])"
    unfolding tags by (rule make_chunk_ok) simp
  show ?thesis
    by (simp only: encode_def pack_ihdr_ok [OF assms(1,2)] Let_def 1 2 3 sum.case spec_png_def sig_def)
qed

lemma encode_Inr:
  assumes "encode compress sz pixels = Inr png"
  shows "0 \<le> sz" "sz < 2 ^ 32" "length (compress (scanlines pixels)) < 2 ^ 32"
    "png = spec_png (nat sz) (compress (scanlines pixels))"
proof -
  obtain ihdr where i: "pack_IIBBBBB sz sz 8 6 0 0 0 = Inr ihdr"
    using assms by (cases "pack_IIBBBBB sz sz 8 6 0 0 0") (simp_all add: encode_def)
  from pack_ihdr_Inr [OF i] show r: "0 \<le> sz" "sz < 2 ^ 32" by simp_all
  have ih: "ihdr = spec_ihdr (nat sz) (nat sz)" using pack_ihdr_ok [OF r] i by simp
  obtain c1 where c1: "make_chunk tag_IHDR ihdr = Inr c1"
    using assms i by (cases "make_chunk tag_IHDR ihdr") (simp_all add: encode_def Let_def)
  obtain c2 where c2: "make_chunk tag_IDAT (compress (scanlines pixels)) = Inr c2"
    using assms i c1
    by (cases "make_chunk tag_IDAT (compress (scanlines pixels))") (simp_all add: encode_def Let_def)
  show l: "length (compress (scanlines pixels)) < 2 ^ 32"
    using c2 unfolding tags by (rule make_chunk_Inr(1))
  show "png = spec_png (nat sz) (compress (scanlines pixels))"
    using encode_ok [of sz compress pixels, OF r l] assms by simp
qed

lemma ihdr_72: "spec_ihdr 72 72 = [0, 0, 0, 0x48, 0, 0, 0, 0x48, 8, 6, 0, 0, 0]"
  by (simp add: spec_ihdr_def be32_def)

lemma iend_chunk:
  "spec_chunk ''IEND'' [] = [0, 0, 0, 0, 0x49, 0x45, 0x4E, 0x44, 0xAE, 0x42, 0x60, 0x82]"
proof -
  have "crc32 (ascii ''IEND'') = 0xAE426082" using crc_iend by (simp only: tags)
  then show ?thesis by (simp add: spec_chunk_def be32_def ascii_def)
qed

lemma ihdr_chunk_72:
  "spec_chunk ''IHDR'' (spec_ihdr 72 72)
     = [0, 0, 0, 0x0D, 0x49, 0x48, 0x44, 0x52, 0, 0, 0, 0x48, 0, 0, 0, 0x48, 8, 6, 0, 0, 0]
       @ be32 (nat (crc32 (ascii ''IHDR'' @ spec_ihdr 72 72)))"
  by (simp add: spec_chunk_def ihdr_72 be32_def ascii_def)


lemma max_int_ge_72: "72 \<le> max_int"
  by (simp add: max_int_def)

lemma be_nat_unfold:
  "be_nat (be32 n) = ((n div 16777216 mod 256 * 256 + n div 65536 mod 256) * 256
                       + n div 256 mod 256) * 256 + n mod 256"
  by (simp add: be_nat_def be32_def unat_of_nat)

lemma be_nat_be32:
  assumes "n < 2 ^ 32"
  shows "be_nat (be32 n) = n"
proof -
  define a where "a = n div 256"
  define b where "b = a div 256"
  define c where "c = b div 256"
  have n: "a * 256 + n mod 256 = n" unfolding a_def by simp
  have a: "b * 256 + a mod 256 = a" unfolding b_def by simp
  have b: "c * 256 + b mod 256 = b" unfolding c_def by simp
  have e2: "n div 65536 = b" unfolding b_def a_def by (simp add: div_mult2_eq [symmetric])
  have e3: "n div 16777216 = c" unfolding c_def b_def a_def by (simp add: div_mult2_eq [symmetric])
  have "c < 256" unfolding e3 [symmetric] using assms by simp
  then have c: "c mod 256 = c" by simp
  have "be_nat (be32 n) = ((c mod 256 * 256 + b mod 256) * 256 + a mod 256) * 256 + n mod 256"
    unfolding be_nat_unfold e2 e3 a_def [symmetric] ..
  also have "\<dots> = n" by (simp only: c b a n)
  finally show ?thesis .
qed

lemma length_ascii4: "length (ascii ''IHDR'') = 4" "length (ascii ''IDAT'') = 4"
  "length (ascii ''IEND'') = 4"
  by (simp_all add: ascii_def)

lemma parse_chunk_step:
  assumes "length (ascii t) = 4" "length d < 2 ^ 32"
  shows "parse_chunks (spec_chunk t d @ rest)
           = (case parse_chunks rest of None \<Rightarrow> None | Some cs \<Rightarrow> Some ((ascii t, d) # cs))"
proof -
  let ?c = "be32 (nat (crc32 (ascii t @ d)))"
  let ?bs = "be32 (length d) @ ascii t @ d @ ?c @ rest"
  have bs: "spec_chunk t d @ rest = ?bs" by (simp add: spec_chunk_def)
  have n: "be_nat (take 4 ?bs) = length d"
    using be_nat_be32 [OF assms(2)] by (simp add: length_be32)
  have tg: "take 4 (drop 4 ?bs) = ascii t" using assms(1) by (simp add: length_be32)
  have dt: "take (length d) (drop 8 ?bs) = d" using assms(1) by (simp add: length_be32)
  have cr: "take 4 (drop (8 + length d) ?bs) = ?c" using assms(1) by (simp add: length_be32)
  have rs: "drop (12 + length d) ?bs = rest" using assms(1) by (simp add: length_be32)
  have len: "length ?bs = 12 + length d + length rest"
    using assms(1) by (simp add: length_be32)
  have ln: "\<not> length ?bs < 12" "\<not> length ?bs < 12 + length d"
    unfolding len by simp_all
  have ne: "?bs \<noteq> []"
  proof
    assume "?bs = []"
    then have "length ?bs = 0" by (simp only: list.size)
    then show False unfolding len by simp
  qed
  have "nat (crc32 (ascii t @ d)) < 2 ^ 32"
    using crc32_range [of "ascii t @ d"] by (simp add: nat_less_iff)
  then have ck: "be_nat ?c = nat (crc32 (ascii t @ d))" by (rule be_nat_be32)
  show ?thesis
    unfolding bs
    by (subst parse_chunks.simps) (simp only: Let_def n tg dt cr rs ln ne ck if_False not_True_eq_False simp_thms)
qed

lemma parse_spec_png:
  assumes "length z < 2 ^ 32"
  shows "parse_chunks (drop 8 (spec_png sz z))
           = Some [(ascii ''IHDR'', spec_ihdr sz sz), (ascii ''IDAT'', z), (ascii ''IEND'', [])]"
proof -
  have e: "parse_chunks [] = Some []" by (subst parse_chunks.simps) simp
  have "length ([] :: byte list) < 2 ^ 32" by simp
  from parse_chunk_step [OF length_ascii4(3) this, of "[]"]
  have 3: "parse_chunks (spec_chunk ''IEND'' [] @ []) = Some [(ascii ''IEND'', [])]"
    by (simp only: e option.case)
  from parse_chunk_step [OF length_ascii4(2) assms, of "spec_chunk ''IEND'' [] @ []"]
  have 2: "parse_chunks (spec_chunk ''IDAT'' z @ spec_chunk ''IEND'' [] @ [])
             = Some [(ascii ''IDAT'', z), (ascii ''IEND'', [])]"
    by (simp only: 3 option.case)
  have "length (spec_ihdr sz sz) < 2 ^ 32" by (simp add: length_spec_ihdr)
  from parse_chunk_step [OF length_ascii4(1) this,
      of "spec_chunk ''IDAT'' z @ spec_chunk ''IEND'' [] @ []"]
  have 1: "parse_chunks (spec_chunk ''IHDR'' (spec_ihdr sz sz) @ spec_chunk ''IDAT'' z
                          @ spec_chunk ''IEND'' [] @ [])
             = Some [(ascii ''IHDR'', spec_ihdr sz sz), (ascii ''IDAT'', z), (ascii ''IEND'', [])]"
    by (simp only: 2 option.case)
  show ?thesis using 1 by (simp add: spec_png_def)
qed

lemma idat_of_spec_png:
  assumes "length z < 2 ^ 32"
  shows "idat_data (spec_png sz z) = Some z"
proof -
  have "take 8 (spec_png sz z) = sig" by (simp add: spec_png_def sig_def)
  then show ?thesis
    by (simp add: idat_data_def parse_spec_png [OF assms] tags ascii_def)
qed

lemma unscan_concat:
  "list_all (\<lambda>row. length row = 4 * w) rows \<Longrightarrow>
     unscan w (length rows) (concat (map (\<lambda>row. 0 # row) rows)) = rows"
  by (induction rows) simp_all


lemma image_ok_rows:
  assumes "0 < sz" "image_ok sz pixels"
  shows "length pixels = nat sz" and "list_all (\<lambda>row. length row = 4 * nat sz) pixels"
proof -
  show "length pixels = nat sz" using assms by (auto simp: image_ok_def)
  have "\<And>row. int (length row) = 4 * sz \<Longrightarrow> length row = 4 * nat sz"
    using assms(1) by linarith
  then show "list_all (\<lambda>row. length row = 4 * nat sz) pixels"
    using assms(2) by (auto simp: image_ok_def list_all_iff)
qed

section \<open>Claims about the encoder\<close>




text \<open>
  C6. encode(rasterize(72)) begins with the 29 bytes 89 50 4E 47 0D 0A 1A 0A 00 00 00 0D
  49 48 44 52 00 00 00 48 00 00 00 48 08 06 00 00 00, followed by a 4-byte CRC, then the
  IDAT chunk, and ends with the IEND chunk 00 00 00 00 49 45 4E 44 AE 42 60 82. The
  compressor is a parameter; its output for the 20808 bytes of scanlines has to fit the
  4-byte length field.
\<close>

theorem icon_72_layout:
  assumes "rasterize 72 = Inr img" and "length (compress (scanlines img)) < 2 ^ 32"
  shows "\<exists>crc. length crc = 4
           \<and> encode compress 72 img
               = Inr ([0x89, 0x50, 0x4E, 0x47, 0x0D, 0x0A, 0x1A, 0x0A,
                       0, 0, 0, 0x0D, 0x49, 0x48, 0x44, 0x52,
                       0, 0, 0, 0x48, 0, 0, 0, 0x48, 8, 6, 0, 0, 0]
                      @ crc
                      @ spec_chunk ''IDAT'' (compress (scanlines img))
                      @ [0, 0, 0, 0, 0x49, 0x45, 0x4E, 0x44, 0xAE, 0x42, 0x60, 0x82])"
proof -
  let ?crc = "be32 (nat (crc32 (ascii ''IHDR'' @ spec_ihdr 72 72)))"
  have "encode compress 72 img = Inr (spec_png (nat 72) (compress (scanlines img)))"
    using encode_ok [of 72 compress img] assms(2) by simp
  then have "encode compress 72 img
               = Inr ([0x89, 0x50, 0x4E, 0x47, 0x0D, 0x0A, 0x1A, 0x0A,
                       0, 0, 0, 0x0D, 0x49, 0x48, 0x44, 0x52,
                       0, 0, 0, 0x48, 0, 0, 0, 0x48, 8, 6, 0, 0, 0]
                      @ ?crc
                      @ spec_chunk ''IDAT'' (compress (scanlines img))
                      @ [0, 0, 0, 0, 0x49, 0x45, 0x4E, 0x44, 0xAE, 0x42, 0x60, 0x82])"
    by (simp add: spec_png_def ihdr_chunk_72 iend_chunk)
  moreover have "length ?crc = 4" by (rule length_be32)
  ultimately show ?thesis by blast
qed

theorem icon_72_layout_witness:
  "\<exists>img. rasterize 72 = Inr img \<and> length ((\<lambda>raw. raw) (scanlines img)) < 2 ^ 32
     \<and> (\<exists>crc. length crc = 4
           \<and> encode (\<lambda>raw. raw) 72 img
               = Inr ([0x89, 0x50, 0x4E, 0x47, 0x0D, 0x0A, 0x1A, 0x0A,
                       0, 0, 0, 0x0D, 0x49, 0x48, 0x44, 0x52,
                       0, 0, 0, 0x48, 0, 0, 0, 0x48, 8, 6, 0, 0, 0]
                      @ crc
                      @ spec_chunk ''IDAT'' ((\<lambda>raw. raw) (scanlines img))
                      @ [0, 0, 0, 0, 0x49, 0x45, 0x4E, 0x44, 0xAE, 0x42, 0x60, 0x82]))"
proof -
  obtain img where img: "rasterize 72 = Inr img"
    using rasterize_ok [of 72] max_int_ge_72 by auto
  have ok: "image_ok 72 img" using rasterize_shape [of 72 img] max_int_ge_72 img by simp
  have "int (length (scanlines img)) = 72 * (1 + 4 * 72)"
    using ok length_concat_rows [of 72 img] by (simp add: scanlines_concat image_ok_def)
  then have len: "length ((\<lambda>raw. raw) (scanlines img)) < 2 ^ 32" by simp
  from icon_72_layout [of img "\<lambda>raw. raw", OF img len] show ?thesis using img len by blast
qed

text \<open>
  C7. For every image of width = height = size > 0, the data of the IDAT chunk of
  encode(image), decompressed by an inflate that inverts the compressor on the scanline
  buffer, are height * (1 + width * 4) bytes, and the rows cut out of them without their
  filter bytes are the image.
\<close>

theorem idat_round_trip:
  assumes "0 < sz" and "image_ok sz pixels" and "encode compress sz pixels = Inr png"
    and "inflate (compress (scanlines pixels)) = scanlines pixels"
  shows "\<exists>z. idat_data png = Some z
           \<and> int (length (inflate z)) = sz * (1 + sz * 4)
           \<and> unscan (nat sz) (nat sz) (inflate z) = pixels"
proof -
  let ?z = "compress (scanlines pixels)"
  have png: "png = spec_png (nat sz) ?z" and lz: "length ?z < 2 ^ 32"
    using encode_Inr [OF assms(3)] by simp_all
  have 1: "idat_data png = Some ?z" unfolding png by (rule idat_of_spec_png [OF lz])
  have 2: "int (length (inflate ?z)) = sz * (1 + sz * 4)"
    unfolding assms(4)
    using assms(2) length_concat_rows [of sz pixels]
    by (simp add: scanlines_concat image_ok_def mult.commute)
  have "unscan (nat sz) (length pixels) (concat (map (\<lambda>row. 0 # row) pixels)) = pixels"
    by (rule unscan_concat [OF image_ok_rows(2) [OF assms(1,2)]])
  then have 3: "unscan (nat sz) (nat sz) (inflate ?z) = pixels"
    unfolding assms(4) by (simp add: scanlines_concat image_ok_rows(1) [OF assms(1,2)])
  show ?thesis using 1 2 3 by blast
qed

theorem idat_round_trip_witness:
  "(0::int) < 1 \<and> image_ok 1 [[30, 58, 95, 255]]
   \<and> (\<exists>png. encode (\<lambda>raw. raw) 1 [[30, 58, 95, 255]] = Inr png
         \<and> (\<exists>z. idat_data png = Some z
               \<and> int (length ((\<lambda>raw. raw) z)) = 1 * (1 + 1 * 4)
               \<and> unscan (nat 1) (nat 1) ((\<lambda>raw. raw) z) = [[30, 58, 95, 255]]
               \<and> z = [0, 30, 58, 95, 255]))"
proof -
  have ok: "image_ok 1 [[30, 58, 95, 255]]" by (simp add: image_ok_def)
  have sc: "scanlines [[30, 58, 95, 255]] = [0, 30, 58, 95, 255]" by (simp add: scanlines_def)
  obtain png where png: "encode (\<lambda>raw. raw) 1 [[30, 58, 95, 255]] = Inr png"
    using encode_ok [of 1 "\<lambda>raw. raw" "[[30, 58, 95, 255]]"] by (simp add: sc)
  have z: "idat_data png = Some [0, 30, 58, 95, 255]"
    using encode_Inr(4) [OF png] idat_of_spec_png [of "[0, 30, 58, 95, 255]" "nat 1"]
    by (simp add: sc)
  from idat_round_trip [of 1 "[[30, 58, 95, 255]]" "\<lambda>raw. raw" png "\<lambda>raw. raw"]
  show ?thesis using ok png z by auto
qed

end
